theory Spec2Isabelle
  imports Complex_Main "HOL-Library.Multiset"
begin

section \<open>JavaScript numbers\<close>

text \<open>
  The analysis code of \<^verbatim>\<open>src/script.js\<close> computes on JavaScript numbers. They are
  modelled here as the real numbers extended by the three special values of the
  language: a finite number is \<open>Fin r\<close>, and the arithmetic on finite numbers is exact
  (rounding and overflow of the 64-bit format are left out, and zero carries no sign: it
  is read as \<open>+0\<close>); \<open>PInf\<close>, \<open>NInf\<close> and \<open>NaN\<close> are \<^verbatim>\<open>Infinity\<close>, \<^verbatim>\<open>-Infinity\<close> and
  \<^verbatim>\<open>NaN\<close>, which division by zero and reads of \<^verbatim>\<open>undefined\<close> produce. The operators
  follow the tables of the language for the special values.
\<close>

datatype jsnum = Fin real | PInf | NInf | NaN

instantiation jsnum :: "{plus, uminus, minus, times, inverse, abs, ord}"
begin

fun plus_jsnum :: "jsnum \<Rightarrow> jsnum \<Rightarrow> jsnum" where
  "Fin a + Fin b = Fin (a + b)"
| "NaN + _ = NaN"
| "_ + NaN = NaN"
| "PInf + NInf = NaN"
| "NInf + PInf = NaN"
| "PInf + _ = PInf"
| "_ + PInf = PInf"
| "NInf + _ = NInf"
| "_ + NInf = NInf"

fun uminus_jsnum :: "jsnum \<Rightarrow> jsnum" where
  "- Fin a = Fin (- a)"
| "- PInf = NInf"
| "- NInf = PInf"
| "- NaN = NaN"

definition minus_jsnum :: "jsnum \<Rightarrow> jsnum \<Rightarrow> jsnum" where
  "minus_jsnum x y = x + (- y)"

fun times_jsnum :: "jsnum \<Rightarrow> jsnum \<Rightarrow> jsnum" where
  "Fin a * Fin b = Fin (a * b)"
| "NaN * _ = NaN"
| "_ * NaN = NaN"
| "Fin a * PInf = (if 0 < a then PInf else if a < 0 then NInf else NaN)"
| "Fin a * NInf = (if 0 < a then NInf else if a < 0 then PInf else NaN)"
| "PInf * Fin b = (if 0 < b then PInf else if b < 0 then NInf else NaN)"
| "NInf * Fin b = (if 0 < b then NInf else if b < 0 then PInf else NaN)"
| "PInf * PInf = PInf"
| "PInf * NInf = NInf"
| "NInf * PInf = NInf"
| "NInf * NInf = PInf"

fun divide_jsnum :: "jsnum \<Rightarrow> jsnum \<Rightarrow> jsnum" where
  "Fin a div Fin b =
     (if b \<noteq> 0 then Fin (a / b)
      else if 0 < a then PInf else if a < 0 then NInf else NaN)"
| "NaN div _ = NaN"
| "_ div NaN = NaN"
| "Fin a div PInf = Fin 0"
| "Fin a div NInf = Fin 0"
| "PInf div Fin b = (if 0 \<le> b then PInf else NInf)"
| "NInf div Fin b = (if 0 \<le> b then NInf else PInf)"
| "PInf div PInf = NaN"
| "PInf div NInf = NaN"
| "NInf div PInf = NaN"
| "NInf div NInf = NaN"

definition inverse_jsnum :: "jsnum \<Rightarrow> jsnum" where
  "inverse_jsnum x = Fin 1 div x"

fun abs_jsnum :: "jsnum \<Rightarrow> jsnum" where
  "\<bar>Fin a\<bar> = Fin \<bar>a\<bar>"
| "\<bar>PInf\<bar> = PInf"
| "\<bar>NInf\<bar> = PInf"
| "\<bar>NaN\<bar> = NaN"

fun less_jsnum :: "jsnum \<Rightarrow> jsnum \<Rightarrow> bool" where
  "Fin a < Fin b = (a < b)"
| "NaN < _ = False"
| "_ < NaN = False"
| "_ < NInf = False"
| "PInf < _ = False"
| "NInf < _ = True"
| "_ < PInf = True"

definition less_eq_jsnum :: "jsnum \<Rightarrow> jsnum \<Rightarrow> bool" where
  "less_eq_jsnum x y = (x < y \<or> (x = y \<and> x \<noteq> NaN))"

instance ..

end

text \<open>\<^verbatim>\<open>Math.atan2(y, x)\<close> on finite arguments: the angle of the point \<open>(x, y)\<close>.\<close>

definition atan2 :: "real \<Rightarrow> real \<Rightarrow> real" where
  "atan2 y x =
     (if 0 < x then arctan (y / x)
      else if x < 0 then (if 0 \<le> y then arctan (y / x) + pi else arctan (y / x) - pi)
      else if 0 < y then pi / 2 else if y < 0 then - pi / 2 else 0)"

fun js_atan2 :: "jsnum \<Rightarrow> jsnum \<Rightarrow> jsnum" where
  "js_atan2 (Fin y) (Fin x) = Fin (atan2 y x)"
| "js_atan2 NaN _ = NaN"
| "js_atan2 _ NaN = NaN"
| "js_atan2 (Fin y) PInf = Fin 0"
| "js_atan2 (Fin y) NInf = (if 0 \<le> y then Fin pi else Fin (- pi))"
| "js_atan2 PInf (Fin x) = Fin (pi / 2)"
| "js_atan2 NInf (Fin x) = Fin (- pi / 2)"
| "js_atan2 PInf PInf = Fin (pi / 4)"
| "js_atan2 PInf NInf = Fin (3 * pi / 4)"
| "js_atan2 NInf PInf = Fin (- pi / 4)"
| "js_atan2 NInf NInf = Fin (- 3 * pi / 4)"

fun js_cos :: "jsnum \<Rightarrow> jsnum" where
  "js_cos (Fin a) = Fin (cos a)"
| "js_cos _ = NaN"

fun js_sin :: "jsnum \<Rightarrow> jsnum" where
  "js_sin (Fin a) = Fin (sin a)"
| "js_sin _ = NaN"

text \<open>\<^verbatim>\<open>xs.reduce((a, b) => a + b, 0)\<close>\<close>

definition js_sum :: "jsnum list \<Rightarrow> jsnum" where
  "js_sum xs = foldl (\<lambda>a b. a + b) (Fin 0) xs"

section \<open>Arrays and objects\<close>

text \<open>
  An array of numbers is a list. A read past the end gives \<^verbatim>\<open>undefined\<close>, which every
  arithmetic use turns into \<^verbatim>\<open>NaN\<close>; a write past the end extends the array, the
  holes reading as \<^verbatim>\<open>undefined\<close> again.
\<close>

definition arr_get :: "jsnum list \<Rightarrow> nat \<Rightarrow> jsnum" where
  "arr_get xs i = (if i < length xs then xs ! i else NaN)"

definition arr_set :: "jsnum list \<Rightarrow> nat \<Rightarrow> jsnum \<Rightarrow> jsnum list" where
  "arr_set xs i v =
     (if i < length xs then xs[i := v] else xs @ replicate (i - length xs) NaN @ [v])"

text \<open>
  A matrix is an array of rows. The code only ever indexes the rows of a matrix \<open>m\<close>
  below \<open>m.length\<close>, so the row itself is read with \<open>!\<close>; the column index goes through
  \<open>arr_get\<close> and \<open>arr_set\<close>.
\<close>

type_synonym matrix = "jsnum list list"

definition mat_get :: "matrix \<Rightarrow> nat \<Rightarrow> nat \<Rightarrow> jsnum" where
  "mat_get m i j = arr_get (m ! i) j"

definition mat_set :: "matrix \<Rightarrow> nat \<Rightarrow> nat \<Rightarrow> jsnum \<Rightarrow> matrix" where
  "mat_set m i j v = m[i := arr_set (m ! i) j v]"

text \<open>
  The price table of one stock is an object from date strings to prices; its keys are
  kept in insertion order, so it is an association list (with distinct keys).
  \<^verbatim>\<open>Object.keys\<close> lists the keys, and the read of a key that is not there gives
  \<^verbatim>\<open>undefined\<close>, kept as \<open>NaN\<close>.
\<close>

type_synonym price_series = "(string \<times> jsnum) list"

definition object_keys :: "price_series \<Rightarrow> string list" where
  "object_keys obj = map fst obj"

definition prop_get :: "price_series \<Rightarrow> string \<Rightarrow> jsnum" where
  "prop_get obj k = (case map_of obj k of None \<Rightarrow> NaN | Some v \<Rightarrow> v)"

text \<open>
  The errors of the specification, and the one the code can raise: the \<^verbatim>\<open>TypeError\<close> of
  reading a property of \<^verbatim>\<open>undefined\<close>.
\<close>

datatype error =
  TypeError
  | InsufficientDataError
  | DataAlignmentError
  | DivisionByZeroError
  | DegenerateDecompositionError

text \<open>
  A loop whose body may throw: \<^verbatim>\<open>xs.forEach(x => ...)\<close> and
  \<^verbatim>\<open>for (let i = 0; i < n; i++) ...\<close> over a state \<open>s\<close>, stopping at the first error.
\<close>

fun forEach :: "('a \<Rightarrow> 's \<Rightarrow> error + 's) \<Rightarrow> 'a list \<Rightarrow> 's \<Rightarrow> error + 's" where
  "forEach f [] s = Inr s"
| "forEach f (x # xs) s = (case f x s of Inl e \<Rightarrow> Inl e | Inr s' \<Rightarrow> forEach f xs s')"

section \<open>Returns\<close>

text \<open>
  Lines 99 to 103 of \<^verbatim>\<open>performAnalysis\<close>, for one stock:
  \<^verbatim>\<open>for (let i = 1; i < prices.length; i++) returns.push((prices[i] - prices[i-1]) / prices[i-1])\<close>
\<close>

definition stock_returns :: "jsnum list \<Rightarrow> jsnum list" where
  "stock_returns prices =
     foldl (\<lambda>returns i.
              returns @ [(arr_get prices i - arr_get prices (i - 1)) / arr_get prices (i - 1)])
       [] [1..<length prices]"

section \<open>Covariance\<close>

text \<open>
  \<^verbatim>\<open>calculateCovarianceMatrix(returns)\<close>. The field \<^verbatim>\<open>this.stocks\<close> is the parameter
  \<open>stocks\<close>; \<open>returns\<close> is the object from stock symbols to return series. The method
  \<^verbatim>\<open>reduce\<close> of a series that is not there throws.
\<close>

definition series_mean :: "jsnum list \<Rightarrow> jsnum" where
  "series_mean ret = js_sum ret / Fin (real (length ret))"

definition cov_entry :: "jsnum list \<Rightarrow> jsnum list \<Rightarrow> jsnum" where
  "cov_entry retI retJ =
     (let meanI = series_mean retI;
          meanJ = series_mean retJ;
          covariance =
            foldl (\<lambda>covariance k.
                     covariance + (arr_get retI k - meanI) * (arr_get retJ k - meanJ))
              (Fin 0) [0..<length retI]
      in covariance / Fin (real (length retI) - 1))"

definition cov_cell ::
  "string list \<Rightarrow> (string \<rightharpoonup> jsnum list) \<Rightarrow> nat \<Rightarrow> nat \<Rightarrow> matrix \<Rightarrow> error + matrix" where
  "cov_cell stocks returns i j m =
     (case returns (stocks ! i) of
        None \<Rightarrow> Inl TypeError
      | Some retI \<Rightarrow>
          (case returns (stocks ! j) of
             None \<Rightarrow> Inl TypeError
           | Some retJ \<Rightarrow> Inr (mat_set m i j (cov_entry retI retJ))))"

definition calculateCovarianceMatrix ::
  "string list \<Rightarrow> (string \<rightharpoonup> jsnum list) \<Rightarrow> error + matrix" where
  "calculateCovarianceMatrix stocks returns =
     (let n = length stocks;
          matrix = replicate n (replicate n (Fin 0))
      in forEach (\<lambda>i. forEach (\<lambda>j. cov_cell stocks returns i j) [0..<n]) [0..<n] matrix)"

section \<open>The Jacobi eigensolver\<close>

text \<open>The scan of the strict upper triangle for the entry of largest magnitude.\<close>

definition find_pivot :: "nat \<Rightarrow> matrix \<Rightarrow> jsnum \<times> nat \<times> nat" where
  "find_pivot n vals =
     foldl (\<lambda>acc i.
              foldl (\<lambda>(mx, p, q) j.
                       if \<bar>mat_get vals i j\<bar> > mx then (\<bar>mat_get vals i j\<bar>, i, j)
                       else (mx, p, q))
                acc [i + 1..<n])
       (Fin 0, 0, 0) [0..<n]"

text \<open>The update of the working matrix, lines 187 to 204.\<close>

definition rotate_row :: "nat \<Rightarrow> nat \<Rightarrow> jsnum \<Rightarrow> jsnum \<Rightarrow> matrix \<Rightarrow> nat \<Rightarrow> matrix" where
  "rotate_row p q c s vals r =
     (if r \<noteq> p \<and> r \<noteq> q then
        (let temp1 = mat_get vals p r;
             temp2 = mat_get vals q r;
             v1 = mat_set vals p r (c * temp1 - s * temp2);
             v2 = mat_set v1 r p (mat_get v1 p r);
             v3 = mat_set v2 q r (s * temp1 + c * temp2);
             v4 = mat_set v3 r q (mat_get v3 q r)
         in v4)
      else vals)"

definition rotate_values :: "nat \<Rightarrow> nat \<Rightarrow> nat \<Rightarrow> jsnum \<Rightarrow> jsnum \<Rightarrow> matrix \<Rightarrow> matrix" where
  "rotate_values n p q c s vals =
     (let v0 = foldl (rotate_row p q c s) vals [0..<n];
          temp1 = mat_get v0 p p;
          temp2 = mat_get v0 q q;
          temp3 = mat_get v0 p q;
          v1 = mat_set v0 p p (c * c * temp1 + s * s * temp2 - Fin 2 * c * s * temp3);
          v2 = mat_set v1 q q (s * s * temp1 + c * c * temp2 + Fin 2 * c * s * temp3);
          v3 = mat_set v2 q p (Fin 0);
          v4 = mat_set v3 p q (Fin 0)
      in v4)"

text \<open>The update of the accumulated eigenvectors, lines 207 to 212.\<close>

definition rotate_vector_row :: "nat \<Rightarrow> nat \<Rightarrow> jsnum \<Rightarrow> jsnum \<Rightarrow> matrix \<Rightarrow> nat \<Rightarrow> matrix" where
  "rotate_vector_row p q c s vecs r =
     (let temp1 = mat_get vecs r p;
          temp2 = mat_get vecs r q;
          v1 = mat_set vecs r p (c * temp1 - s * temp2);
          v2 = mat_set v1 r q (s * temp1 + c * temp2)
      in v2)"

definition rotate_vectors :: "nat \<Rightarrow> nat \<Rightarrow> nat \<Rightarrow> jsnum \<Rightarrow> jsnum \<Rightarrow> matrix \<Rightarrow> matrix" where
  "rotate_vectors n p q c s vecs = foldl (rotate_vector_row p q c s) vecs [0..<n]"

text \<open>One pass of the body of the main loop after the convergence test, lines 182 to 212.\<close>

definition rotation_angle :: "nat \<Rightarrow> nat \<Rightarrow> matrix \<Rightarrow> jsnum" where
  "rotation_angle p q vals =
     Fin (1 / 2) * js_atan2 (Fin 2 * mat_get vals p q) (mat_get vals q q - mat_get vals p p)"

definition jacobi_rotate :: "nat \<Rightarrow> nat \<Rightarrow> nat \<Rightarrow> matrix \<times> matrix \<Rightarrow> matrix \<times> matrix" where
  "jacobi_rotate n p q st =
     (case st of (vals, vecs) \<Rightarrow>
        (let theta = rotation_angle p q vals;
             c = js_cos theta;
             s = js_sin theta
         in (rotate_values n p q c s vals, rotate_vectors n p q c s vecs)))"

definition tolerance :: jsnum where
  "tolerance = Fin (1 / 10 ^ 10)"

text \<open>
  The main loop, \<^verbatim>\<open>for (let iter = 0; iter < 50; iter++)\<close> with its \<^verbatim>\<open>break\<close>. The
  result carries the value of \<open>iter\<close> at the exit with the two matrices.
\<close>

function jacobi_loop :: "nat \<Rightarrow> nat \<Rightarrow> matrix \<times> matrix \<Rightarrow> nat \<times> matrix \<times> matrix" where
  "jacobi_loop n iter st =
     (if iter < 50 then
        (case find_pivot n (fst st) of (mx, p, q) \<Rightarrow>
           if mx < tolerance then (iter, st)
           else jacobi_loop n (iter + 1) (jacobi_rotate n p q st))
      else (iter, st))"
  by pat_completeness auto
termination
  by (relation "measure (\<lambda>(n, iter, st). 50 - iter)") auto

declare jacobi_loop.simps [simp del]

text \<open>
  \<^verbatim>\<open>indices.sort((a, b) => eigenvalues[b] - eigenvalues[a])\<close>. The sort of the language
  is stable, and for a comparator that orders the elements consistently its result is
  the one stable arrangement; the insertion sort below computes it. An element moves
  behind another one only when the comparator is positive on the pair.
\<close>

fun sort_insert :: "('a \<Rightarrow> 'a \<Rightarrow> jsnum) \<Rightarrow> 'a \<Rightarrow> 'a list \<Rightarrow> 'a list" where
  "sort_insert cmp x [] = [x]"
| "sort_insert cmp x (y # ys) =
     (if cmp x y > Fin 0 then y # sort_insert cmp x ys else x # y # ys)"

definition js_sort :: "('a \<Rightarrow> 'a \<Rightarrow> jsnum) \<Rightarrow> 'a list \<Rightarrow> 'a list" where
  "js_sort cmp xs = foldr (sort_insert cmp) xs []"

definition identity_matrix :: "nat \<Rightarrow> matrix" where
  "identity_matrix n = map (\<lambda>i. map (\<lambda>j. if i = j then Fin 1 else Fin 0) [0..<n]) [0..<n]"

definition diagonal :: "matrix \<Rightarrow> jsnum list" where
  "diagonal vals = map (\<lambda>i. arr_get (vals ! i) i) [0..<length vals]"

definition sorted_indices :: "jsnum list \<Rightarrow> nat list" where
  "sorted_indices eigenvalues =
     js_sort (\<lambda>a b. arr_get eigenvalues b - arr_get eigenvalues a) [0..<length eigenvalues]"

definition column :: "matrix \<Rightarrow> nat \<Rightarrow> jsnum list" where
  "column vecs i = map (\<lambda>row. arr_get row i) vecs"

record eigen =
  eig_values :: "jsnum list"
  eig_vectors :: "jsnum list list"

definition jacobi_output :: "matrix \<times> matrix \<Rightarrow> eigen" where
  "jacobi_output st =
     (case st of (vals, vecs) \<Rightarrow>
        (let eigenvalues = diagonal vals;
             indices = sorted_indices eigenvalues
         in \<lparr> eig_values = map (\<lambda>i. arr_get eigenvalues i) indices,
              eig_vectors = map (\<lambda>i. column vecs i) indices \<rparr>))"

definition jacobiMethod :: "matrix \<Rightarrow> eigen" where
  "jacobiMethod m =
     (let n = length m
      in jacobi_output (snd (jacobi_loop n 0 (m, identity_matrix n))))"

definition performPCA :: "matrix \<Rightarrow> eigen" where
  "performPCA covMatrix = jacobiMethod covMatrix"

section \<open>Interpretation and the pipeline\<close>

definition findMaxIndex :: "jsnum list \<Rightarrow> nat" where
  "findMaxIndex arr =
     foldl (\<lambda>maxIndex index. if arr_get arr index > arr_get arr maxIndex then index else maxIndex)
       0 [0..<length arr]"

record summary =
  mainTrendStock :: "string option"
  varianceExplained :: jsnum
  totalVariance :: jsnum

text \<open>
  The object \<^verbatim>\<open>analysis\<close> of lines 123 to 127. \<^verbatim>\<open>eigenvectors[0]\<close> of an empty list is
  \<^verbatim>\<open>undefined\<close>, whose \<^verbatim>\<open>reduce\<close> throws; a stock index past the list gives
  \<^verbatim>\<open>undefined\<close>, here \<open>None\<close>.
\<close>

definition analysis_of :: "string list \<Rightarrow> eigen \<Rightarrow> error + summary" where
  "analysis_of stocks e =
     (case eig_vectors e of
        [] \<Rightarrow> Inl TypeError
      | v0 # _ \<Rightarrow>
          Inr \<lparr> mainTrendStock =
                  (let k = findMaxIndex v0 in if k < length stocks then Some (stocks ! k) else None),
                varianceExplained =
                  (arr_get (eig_values e) 0 / js_sum (eig_values e)) * Fin 100,
                totalVariance = js_sum (eig_values e) \<rparr>)"

record result =
  res_returns :: "string \<rightharpoonup> jsnum list"
  res_eigen :: eigen
  res_analysis :: summary

text \<open>
  \<^verbatim>\<open>performAnalysis(stockData)\<close>, without the two charts, which draw on a canvas and
  do not change the numbers. \<^verbatim>\<open>this.stocks[0]\<close> of an empty list is \<^verbatim>\<open>undefined\<close>, and
  as a property key that is the string \<^verbatim>\<open>"undefined"\<close>. The prices of a stock are
  \<^verbatim>\<open>dates.map(date => stockData[stock][date])\<close>: for a stock that is not in the table
  the read throws at the first date, and nothing is read when there are no dates.
\<close>

definition first_stock :: "string list \<Rightarrow> string" where
  "first_stock stocks = (case stocks of [] \<Rightarrow> ''undefined'' | s # _ \<Rightarrow> s)"

definition collect_prices ::
  "(string \<rightharpoonup> price_series) \<Rightarrow> string list \<Rightarrow> string \<Rightarrow> (string \<rightharpoonup> jsnum list)
     \<Rightarrow> error + (string \<rightharpoonup> jsnum list)" where
  "collect_prices stockData dates stock prices =
     (case stockData stock of
        None \<Rightarrow> if dates = [] then Inr (prices(stock \<mapsto> [])) else Inl TypeError
      | Some series \<Rightarrow> Inr (prices(stock \<mapsto> map (prop_get series) dates)))"

definition collect_returns ::
  "(string \<rightharpoonup> jsnum list) \<Rightarrow> string \<Rightarrow> (string \<rightharpoonup> jsnum list)
     \<Rightarrow> error + (string \<rightharpoonup> jsnum list)" where
  "collect_returns prices stock returns =
     (case prices stock of
        None \<Rightarrow> Inl TypeError
      | Some ps \<Rightarrow> Inr (returns(stock \<mapsto> stock_returns ps)))"

definition performAnalysis :: "string list \<Rightarrow> (string \<rightharpoonup> price_series) \<Rightarrow> error + result" where
  "performAnalysis stocks stockData =
     (case stockData (first_stock stocks) of
        None \<Rightarrow> Inl TypeError
      | Some series0 \<Rightarrow>
          (let dates = object_keys series0 in
           case forEach (collect_prices stockData dates) stocks Map.empty of
             Inl e \<Rightarrow> Inl e
           | Inr prices \<Rightarrow>
               (case forEach (collect_returns prices) stocks Map.empty of
                  Inl e \<Rightarrow> Inl e
                | Inr returns \<Rightarrow>
                    (case calculateCovarianceMatrix stocks returns of
                       Inl e \<Rightarrow> Inl e
                     | Inr covMatrix \<Rightarrow>
                         (let e = performPCA covMatrix in
                          case analysis_of stocks e of
                            Inl err \<Rightarrow> Inl err
                          | Inr a \<Rightarrow>
                              Inr \<lparr> res_returns = returns, res_eigen = e,
                                    res_analysis = a \<rparr>)))))"

definition stocks0 :: "string list" where
  "stocks0 = [''RELIANCE.NS'', ''TCS.NS'', ''INFY.NS'', ''HDFCBANK.NS'', ''ITC.NS'']"

section \<open>The quantities of the specification\<close>

text \<open>
  The arithmetic mean of a series and the unbiased sample covariance of two series of
  \<open>M\<close> returns, as the specification writes them:
  \<open>cov = \<Sum>\<^sub>k (x[k] - mean x) (y[k] - mean y) / (M - 1)\<close>.
\<close>

definition mean :: "real list \<Rightarrow> real" where
  "mean r = sum_list r / real (length r)"

definition sample_cov :: "nat \<Rightarrow> real list \<Rightarrow> real list \<Rightarrow> real" where
  "sample_cov M x y = (\<Sum>k<M. (x ! k - mean x) * (y ! k - mean y)) / (real M - 1)"

section \<open>The solver on matrices of finite numbers\<close>

text \<open>
  The \<open>n \<times> n\<close> matrix of finite numbers whose entry \<open>(i, j)\<close> is \<open>f i j\<close>. On these
  matrices every step of the solver is a step on the real entries, and the definitions
  below name those steps; the lemmas of the next sections prove that the code computes
  them.
\<close>

definition mk :: "nat \<Rightarrow> (nat \<Rightarrow> nat \<Rightarrow> real) \<Rightarrow> matrix" where
  "mk n f = map (\<lambda>i. map (\<lambda>j. Fin (f i j)) [0..<n]) [0..<n]"

definition square :: "nat \<Rightarrow> real list list \<Rightarrow> bool" where
  "square n A = (length A = n \<and> (\<forall>row \<in> set A. length row = n))"

text \<open>The entries of the working matrix after the rows below \<open>k\<close> have been rotated.\<close>

definition row_rot ::
  "real \<Rightarrow> real \<Rightarrow> nat \<Rightarrow> nat \<Rightarrow> nat \<Rightarrow> (nat \<Rightarrow> nat \<Rightarrow> real) \<Rightarrow> nat \<Rightarrow> nat \<Rightarrow> real" where
  "row_rot c s p q k f a b =
     (if a = p \<and> b < k \<and> b \<noteq> p \<and> b \<noteq> q then c * f p b - s * f q b
      else if b = p \<and> a < k \<and> a \<noteq> p \<and> a \<noteq> q then c * f p a - s * f q a
      else if a = q \<and> b < k \<and> b \<noteq> p \<and> b \<noteq> q then s * f p b + c * f q b
      else if b = q \<and> a < k \<and> a \<noteq> p \<and> a \<noteq> q then s * f p a + c * f q a
      else f a b)"

text \<open>The entries of the working matrix and of the accumulator after one rotation.\<close>

definition rot_vals ::
  "real \<Rightarrow> real \<Rightarrow> nat \<Rightarrow> nat \<Rightarrow> nat \<Rightarrow> (nat \<Rightarrow> nat \<Rightarrow> real) \<Rightarrow> nat \<Rightarrow> nat \<Rightarrow> real" where
  "rot_vals c s p q n f a b =
     (if a = p \<and> b = q then 0
      else if a = q \<and> b = p then 0
      else if a = q \<and> b = q then s * s * f p p + c * c * f q q + 2 * c * s * f p q
      else if a = p \<and> b = p then c * c * f p p + s * s * f q q - 2 * c * s * f p q
      else row_rot c s p q n f a b)"

definition rot_vecs ::
  "real \<Rightarrow> real \<Rightarrow> nat \<Rightarrow> nat \<Rightarrow> (nat \<Rightarrow> nat \<Rightarrow> real) \<Rightarrow> nat \<Rightarrow> nat \<Rightarrow> real" where
  "rot_vecs c s p q g a b =
     (if b = p then c * g a p - s * g a q
      else if b = q then s * g a p + c * g a q
      else g a b)"

definition angle :: "nat \<Rightarrow> nat \<Rightarrow> (nat \<Rightarrow> nat \<Rightarrow> real) \<Rightarrow> real" where
  "angle p q f = 1 / 2 * atan2 (2 * f p q) (f q q - f p p)"

text \<open>The trace, the inner product of two columns, orthonormal columns, symmetry.\<close>

definition trace :: "nat \<Rightarrow> (nat \<Rightarrow> nat \<Rightarrow> real) \<Rightarrow> real" where
  "trace n f = (\<Sum>i<n. f i i)"

definition coldot :: "nat \<Rightarrow> (nat \<Rightarrow> nat \<Rightarrow> real) \<Rightarrow> nat \<Rightarrow> nat \<Rightarrow> real" where
  "coldot n g i j = (\<Sum>r<n. g r i * g r j)"

definition orthonormal :: "nat \<Rightarrow> (nat \<Rightarrow> nat \<Rightarrow> real) \<Rightarrow> bool" where
  "orthonormal n g = (\<forall>i<n. \<forall>j<n. coldot n g i j = (if i = j then 1 else 0))"

definition symmetric :: "nat \<Rightarrow> (nat \<Rightarrow> nat \<Rightarrow> real) \<Rightarrow> bool" where
  "symmetric n f = (\<forall>i<n. \<forall>j<n. f i j = f j i)"

text \<open>
  What the scan has found after the pairs \<open>S\<close>: a bound \<open>mx\<close> on their magnitudes, which
  is either the initial 0 with the initial position, or the magnitude at a scanned
  position \<open>(p, q)\<close>.
\<close>

definition pivot_ok :: "(nat \<Rightarrow> nat \<Rightarrow> real) \<Rightarrow> (nat \<times> nat) set \<Rightarrow> real \<times> nat \<times> nat \<Rightarrow> bool" where
  "pivot_ok f S r =
     (case r of (mx, p, q) \<Rightarrow>
        0 \<le> mx \<and> (\<forall>(i, j) \<in> S. \<bar>f i j\<bar> \<le> mx) \<and>
        ((mx = 0 \<and> p = 0 \<and> q = 0) \<or> ((p, q) \<in> S \<and> mx = \<bar>f p q\<bar> \<and> 0 < mx)))"

text \<open>
  The body of the main loop behind its convergence test, and the test itself. The loop
  runs \<open>jacobi_step\<close> until \<open>stops\<close> holds or 50 passes are done.
\<close>

definition jacobi_step :: "nat \<Rightarrow> matrix \<times> matrix \<Rightarrow> matrix \<times> matrix" where
  "jacobi_step n st = (case find_pivot n (fst st) of (mx, p, q) \<Rightarrow> jacobi_rotate n p q st)"

definition stops :: "nat \<Rightarrow> matrix \<times> matrix \<Rightarrow> bool" where
  "stops n st = (fst (find_pivot n (fst st)) < tolerance)"

text \<open>
  The largest off-diagonal magnitude of a working matrix is below the tolerance when
  every off-diagonal magnitude is.
\<close>

definition converged :: "nat \<Rightarrow> matrix \<Rightarrow> bool" where
  "converged n vals = (\<forall>i<n. \<forall>j<n. i \<noteq> j \<longrightarrow> \<bar>mat_get vals i j\<bar> < tolerance)"

text \<open>
  The order of a stable descending sort by the key \<open>k\<close>: a larger key first, and of two
  equal keys the smaller index first.
\<close>

definition stable_desc :: "(nat \<Rightarrow> real) \<Rightarrow> nat \<Rightarrow> nat \<Rightarrow> bool" where
  "stable_desc k a b = (k a > k b \<or> (k a = k b \<and> a < b))"

text \<open>The inner product of two vectors of numbers.\<close>

definition js_dot :: "jsnum list \<Rightarrow> jsnum list \<Rightarrow> jsnum" where
  "js_dot u v = js_sum (map (\<lambda>(a, b). a * b) (zip u v))"

section \<open>Two price tables\<close>

text \<open>
  A price table for the five stocks of the constructor in which the dates of the second
  stock are not those of the first (it has one more day), with the returns, the
  covariance matrix and the decomposition the pipeline computes from it; and a table in
  which every stock has the same price on every day.
\<close>

definition reliance_series :: price_series where
  "reliance_series =
     [(''2024-01-01'', Fin 100), (''2024-01-02'', Fin 110), (''2024-01-03'', Fin 99),
      (''2024-01-04'', Fin 99)]"

definition tcs_series :: price_series where
  "tcs_series =
     [(''2024-01-01'', Fin 100), (''2024-01-02'', Fin 110), (''2024-01-03'', Fin 121),
      (''2024-01-04'', Fin (484 / 5)), (''2024-01-05'', Fin 100)]"

definition flat_series :: price_series where
  "flat_series =
     [(''2024-01-01'', Fin 50), (''2024-01-02'', Fin 50), (''2024-01-03'', Fin 50),
      (''2024-01-04'', Fin 50)]"

definition misaligned_data :: "string \<rightharpoonup> price_series" where
  "misaligned_data =
     [''RELIANCE.NS'' \<mapsto> reliance_series, ''TCS.NS'' \<mapsto> tcs_series,
      ''INFY.NS'' \<mapsto> flat_series, ''HDFCBANK.NS'' \<mapsto> flat_series, ''ITC.NS'' \<mapsto> flat_series]"

definition misaligned_returns :: "string \<rightharpoonup> jsnum list" where
  "misaligned_returns =
     [''RELIANCE.NS'' \<mapsto> [Fin (1 / 10), Fin (- (1 / 10)), Fin 0],
      ''TCS.NS'' \<mapsto> [Fin (1 / 10), Fin (1 / 10), Fin (- (1 / 5))],
      ''INFY.NS'' \<mapsto> [Fin 0, Fin 0, Fin 0],
      ''HDFCBANK.NS'' \<mapsto> [Fin 0, Fin 0, Fin 0],
      ''ITC.NS'' \<mapsto> [Fin 0, Fin 0, Fin 0]]"

definition misaligned_cov :: matrix where
  "misaligned_cov =
     [[Fin (1 / 100), Fin 0, Fin 0, Fin 0, Fin 0],
      [Fin 0, Fin (3 / 100), Fin 0, Fin 0, Fin 0],
      [Fin 0, Fin 0, Fin 0, Fin 0, Fin 0],
      [Fin 0, Fin 0, Fin 0, Fin 0, Fin 0],
      [Fin 0, Fin 0, Fin 0, Fin 0, Fin 0]]"

definition misaligned_eigen :: eigen where
  "misaligned_eigen =
     \<lparr> eig_values = [Fin (3 / 100), Fin (1 / 100), Fin 0, Fin 0, Fin 0],
       eig_vectors =
         [[Fin 0, Fin 1, Fin 0, Fin 0, Fin 0],
          [Fin 1, Fin 0, Fin 0, Fin 0, Fin 0],
          [Fin 0, Fin 0, Fin 1, Fin 0, Fin 0],
          [Fin 0, Fin 0, Fin 0, Fin 1, Fin 0],
          [Fin 0, Fin 0, Fin 0, Fin 0, Fin 1]] \<rparr>"

definition flat_data :: "string \<rightharpoonup> price_series" where
  "flat_data =
     [''RELIANCE.NS'' \<mapsto> flat_series, ''TCS.NS'' \<mapsto> flat_series, ''INFY.NS'' \<mapsto> flat_series,
      ''HDFCBANK.NS'' \<mapsto> flat_series, ''ITC.NS'' \<mapsto> flat_series]"

definition flat_returns :: "string \<rightharpoonup> jsnum list" where
  "flat_returns =
     [''RELIANCE.NS'' \<mapsto> [Fin 0, Fin 0, Fin 0], ''TCS.NS'' \<mapsto> [Fin 0, Fin 0, Fin 0],
      ''INFY.NS'' \<mapsto> [Fin 0, Fin 0, Fin 0], ''HDFCBANK.NS'' \<mapsto> [Fin 0, Fin 0, Fin 0],
      ''ITC.NS'' \<mapsto> [Fin 0, Fin 0, Fin 0]]"

definition flat_eigen :: eigen where
  "flat_eigen = \<lparr> eig_values = [Fin 0, Fin 0, Fin 0, Fin 0, Fin 0], eig_vectors = identity_matrix 5 \<rparr>"

section \<open>Finite numbers\<close>

lemma Fin_minus [simp]: "Fin a - Fin b = Fin (a - b)"
  by (simp add: minus_jsnum_def)

lemma arr_get_Fin [simp]: "i < length xs \<Longrightarrow> arr_get (map Fin xs) i = Fin (xs ! i)"
  by (simp add: arr_get_def)

lemma foldl_snoc_map: "foldl (\<lambda>acc i. acc @ [f i]) a xs = a @ map f xs"
  by (induction xs arbitrary: a) simp_all

lemma js_sum_Fin_aux: "foldl (\<lambda>a b. a + b) (Fin s) (map Fin xs) = Fin (s + sum_list xs)"
  by (induction xs arbitrary: s) (simp_all add: add.assoc)

lemma js_sum_Fin [simp]: "js_sum (map Fin xs) = Fin (sum_list xs)"
  by (simp add: js_sum_def js_sum_Fin_aux)

section \<open>Returns: the properties\<close>

lemma stock_returns_Fin:
  assumes "0 \<notin> set p"
  shows "stock_returns (map Fin p) =
         map (\<lambda>i. Fin ((p ! (i + 1) - p ! i) / p ! i)) [0..<length p - 1]"
proof -
  have "map (\<lambda>i. (arr_get (map Fin p) i - arr_get (map Fin p) (i - 1))
                    / arr_get (map Fin p) (i - 1)) [1..<length p]
        = map (\<lambda>i. Fin ((p ! i - p ! (i - 1)) / p ! (i - 1))) [1..<length p]"
    using assms by (auto simp: in_set_conv_nth)
  also have "\<dots> = map (\<lambda>i. Fin ((p ! (i + 1) - p ! i) / p ! i)) [0..<length p - 1]"
    by (cases p) (simp_all add: map_upt_Suc del: upt_Suc, simp add: map_Suc_upt[symmetric] del: upt_Suc)
  finally show ?thesis
    by (simp add: stock_returns_def foldl_snoc_map)
qed

text \<open>
  Claim C5. For a series of \<open>T \<ge> 2\<close> finite prices, none of them zero, the returns of
  a stock are \<open>T - 1\<close> numbers, the one at \<open>i\<close> being \<open>(p[i+1] - p[i]) / p[i]\<close>; and the
  prices 100, 110, 99 give the returns 0.10 and -0.1.
\<close>

theorem stock_returns_simple:
  "(2 \<le> length p \<and> 0 \<notin> set p \<longrightarrow>
      length (stock_returns (map Fin p)) = length p - 1 \<and>
      (\<forall>i < length p - 1.
         stock_returns (map Fin p) ! i = Fin ((p ! (i + 1) - p ! i) / p ! i))) \<and>
   stock_returns [Fin 100, Fin 110, Fin 99] = [Fin (1 / 10), Fin (- (1 / 10))]"
proof -
  have "stock_returns (map Fin [100, 110, 99]) = [Fin (1 / 10), Fin (- (1 / 10))]"
    by (subst stock_returns_Fin) (simp_all add: upt_rec)
  then show ?thesis
    by (simp add: stock_returns_Fin)
qed

theorem stock_returns_simple_witness:
  "2 \<le> length [100, 102, 101, 105 :: real] \<and> 0 \<notin> set [100, 102, 101, 105 :: real] \<and>
   length (stock_returns (map Fin [100, 102, 101, 105])) = 3 \<and>
   stock_returns (map Fin [100, 102, 101, 105]) ! 0 = Fin (2 / 100) \<and>
   stock_returns (map Fin [100, 102, 101, 105]) ! 1 = Fin (- 1 / 102) \<and>
   stock_returns (map Fin [100, 102, 101, 105]) ! 2 = Fin (4 / 101)"
  using stock_returns_simple [of "[100, 102, 101, 105]"]
  by (simp add: numeral_3_eq_3 numeral_2_eq_2 less_Suc_eq all_conj_distrib)

section \<open>Covariance: the properties\<close>

lemma series_mean_Fin [simp]: "r \<noteq> [] \<Longrightarrow> series_mean (map Fin r) = Fin (mean r)"
  by (simp add: series_mean_def mean_def)

lemma foldl_add_Fin:
  "(\<And>k. k \<in> set ks \<Longrightarrow> f k = Fin (g k)) \<Longrightarrow>
   foldl (\<lambda>acc k. acc + f k) (Fin a) ks = Fin (a + sum_list (map g ks))"
  by (induction ks arbitrary: a) (simp_all add: add.assoc)

lemma cov_entry_Fin:
  assumes "length x = M" "length y = M" "2 \<le> M"
  shows "cov_entry (map Fin x) (map Fin y) = Fin (sample_cov M x y)"
proof -
  have ne: "x \<noteq> []" "y \<noteq> []" using assms by auto
  have "foldl (\<lambda>covariance k. covariance +
            (arr_get (map Fin x) k - Fin (mean x)) * (arr_get (map Fin y) k - Fin (mean y)))
          (Fin 0) [0..<M]
        = Fin (0 + sum_list (map (\<lambda>k. (x ! k - mean x) * (y ! k - mean y)) [0..<M]))"
    by (rule foldl_add_Fin) (simp add: assms)
  moreover have "real M - 1 \<noteq> 0" using assms by simp
  ultimately show ?thesis
    using assms ne
    by (simp add: cov_entry_def sample_cov_def interv_sum_list_conv_sum_set_nat atLeast0LessThan)
qed

lemma forEach_Inr:
  "(\<And>x s. x \<in> set xs \<Longrightarrow> f x s = Inr (g x s)) \<Longrightarrow>
   forEach f xs s = Inr (foldl (\<lambda>s x. g x s) s xs)"
  by (induction xs arbitrary: s) simp_all

lemma fill_row:
  "i < length m \<Longrightarrow> k \<le> length (m ! i) \<Longrightarrow>
   foldl (\<lambda>m j. mat_set m i j (f j)) m [0..<k] = m[i := map f [0..<k] @ drop k (m ! i)]"
proof (induction k)
  case 0
  then show ?case by simp
next
  case (Suc k)
  then have k: "k < length (m ! i)" by simp
  have "(map f [0..<k] @ drop k (m ! i))[k := f k] = map f [0..<k] @ f k # drop (Suc k) (m ! i)"
    using k by (simp add: list_update_append Cons_nth_drop_Suc[symmetric])
  then show ?case
    using Suc k by (simp add: mat_set_def arr_set_def)
qed

lemma fill_matrix:
  "k \<le> length m \<Longrightarrow> \<forall>r \<in> set m. length r = n \<Longrightarrow>
   foldl (\<lambda>m i. foldl (\<lambda>m j. mat_set m i j (f i j)) m [0..<n]) m [0..<k]
     = map (\<lambda>i. map (f i) [0..<n]) [0..<k] @ drop k m"
proof (induction k)
  case 0
  then show ?case by simp
next
  case (Suc k)
  then have k: "k < length m" by simp
  let ?m' = "map (\<lambda>i. map (f i) [0..<n]) [0..<k] @ drop k m"
  have row: "?m' ! k = m ! k" using k by (simp add: nth_append)
  have len: "length (m ! k) = n" using Suc.prems k by simp
  have "foldl (\<lambda>m j. mat_set m k j (f k j)) ?m' [0..<n] = ?m'[k := map (f k) [0..<n]]"
    using k by (subst fill_row) (simp_all add: row len)
  also have "\<dots> = map (\<lambda>i. map (f i) [0..<n]) [0..<k] @ map (f k) [0..<n] # drop (Suc k) m"
    using k by (simp add: list_update_append Cons_nth_drop_Suc[symmetric])
  finally show ?case
    using Suc k by simp
qed

lemma covariance_matrix_Fin:
  assumes "\<forall>s \<in> set stocks. returns s = Some (map Fin (rs s)) \<and> length (rs s) = M" and "2 \<le> M"
  shows "calculateCovarianceMatrix stocks returns =
         Inr (map (\<lambda>i. map (\<lambda>j. Fin (sample_cov M (rs (stocks ! i)) (rs (stocks ! j))))
                          [0..<length stocks]) [0..<length stocks])"
proof -
  let ?n = "length stocks"
  let ?f = "\<lambda>i j. Fin (sample_cov M (rs (stocks ! i)) (rs (stocks ! j)))"
  have cell: "cov_cell stocks returns i j m = Inr (mat_set m i j (?f i j))"
    if "i \<in> set [0..<?n]" "j \<in> set [0..<?n]" for i j m
    using that assms by (simp add: cov_cell_def cov_entry_Fin)
  have inner: "forEach (\<lambda>j. cov_cell stocks returns i j) [0..<?n] m
               = Inr (foldl (\<lambda>m j. mat_set m i j (?f i j)) m [0..<?n])"
    if "i \<in> set [0..<?n]" for i m
    using that by (intro forEach_Inr cell)
  have "forEach (\<lambda>i. forEach (\<lambda>j. cov_cell stocks returns i j) [0..<?n]) [0..<?n]
          (replicate ?n (replicate ?n (Fin 0)))
        = Inr (foldl (\<lambda>m i. foldl (\<lambda>m j. mat_set m i j (?f i j)) m [0..<?n])
                 (replicate ?n (replicate ?n (Fin 0))) [0..<?n])"
    by (intro forEach_Inr inner)
  then show ?thesis
    by (simp add: calculateCovarianceMatrix_def fill_matrix Let_def)
qed

lemma sample_cov_commute: "sample_cov M x y = sample_cov M y x"
  by (simp add: sample_cov_def mult.commute)

lemma list2_nth: "length xs = 2 \<Longrightarrow> xs = [xs ! 0, xs ! 1]"
  by (cases xs; cases "tl xs") auto

lemma sample_cov_3:
  "sample_cov 3 [a, b, c] [d, e, f] =
     ((a - (a + b + c) / 3) * (d - (d + e + f) / 3) + (b - (a + b + c) / 3) * (e - (d + e + f) / 3)
       + (c - (a + b + c) / 3) * (f - (d + e + f) / 3)) / 2"
  by (simp add: sample_cov_def mean_def numeral_3_eq_3 add.assoc)

text \<open>
  Claim C3. For \<open>N\<close> stocks whose return series are finite and all of length \<open>M \<ge> 2\<close>,
  \<^verbatim>\<open>calculateCovarianceMatrix\<close> returns an \<open>N \<times> N\<close> matrix whose entry \<open>(i, j)\<close>, for
  every ordered pair, is the unbiased sample covariance of the series of stocks \<open>i\<close> and
  \<open>j\<close>.
\<close>

theorem covariance_unbiased:
  assumes "\<forall>s \<in> set stocks. returns s = Some (map Fin (rs s)) \<and> length (rs s) = M"
    and "2 \<le> M"
  shows "\<exists>C. calculateCovarianceMatrix stocks returns = Inr C \<and>
             length C = length stocks \<and>
             (\<forall>i < length stocks. length (C ! i) = length stocks \<and>
                (\<forall>j < length stocks.
                   C ! i ! j = Fin (sample_cov M (rs (stocks ! i)) (rs (stocks ! j)))))"
  by (simp add: covariance_matrix_Fin [OF assms])

theorem covariance_unbiased_witness:
  "[''A'' \<mapsto> map Fin [1 / 10, - 1 / 10, 0], ''B'' \<mapsto> map Fin [1 / 10, 1 / 10, - 2 / 10]] ''A''
     = Some (map Fin [1 / 10, - 1 / 10, 0]) \<and>
   [''A'' \<mapsto> map Fin [1 / 10, - 1 / 10, 0], ''B'' \<mapsto> map Fin [1 / 10, 1 / 10, - 2 / 10]] ''B''
     = Some (map Fin [1 / 10, 1 / 10, - 2 / 10]) \<and>
   calculateCovarianceMatrix [''A'', ''B'']
     [''A'' \<mapsto> map Fin [1 / 10, - 1 / 10, 0], ''B'' \<mapsto> map Fin [1 / 10, 1 / 10, - 2 / 10]]
     = Inr [[Fin (1 / 100), Fin 0], [Fin 0, Fin (3 / 100)]]"
proof -
  let ?R = "[''A'' \<mapsto> map Fin [1 / 10, - 1 / 10, 0], ''B'' \<mapsto> map Fin [1 / 10, 1 / 10, - 2 / 10]]"
  let ?rs = "\<lambda>s. if s = ''A'' then [1 / 10, - 1 / 10, 0] else [1 / 10, 1 / 10, - 2 / 10 :: real]"
  have h: "\<forall>s \<in> set [''A'', ''B'']. ?R s = Some (map Fin (?rs s)) \<and> length (?rs s) = 3"
    by simp
  have le: "(2::nat) \<le> 3" by simp
  obtain C where C1: "calculateCovarianceMatrix [''A'', ''B''] ?R = Inr C"
    and "length C = length [''A'', ''B'']"
    and "\<forall>i < length [''A'', ''B'']. length (C ! i) = length [''A'', ''B''] \<and>
         (\<forall>j < length [''A'', ''B''].
            C ! i ! j = Fin (sample_cov 3 (?rs ([''A'', ''B''] ! i)) (?rs ([''A'', ''B''] ! j))))"
    using covariance_unbiased [OF h le] by blast
  then have C: "length C = 2"
      "\<forall>i < 2. length (C ! i) = 2 \<and>
         (\<forall>j < 2. C ! i ! j = Fin (sample_cov 3 (?rs ([''A'', ''B''] ! i)) (?rs ([''A'', ''B''] ! j))))"
    by simp_all
  have "C = [C ! 0, C ! 1]" using C(1) by (rule list2_nth)
  moreover have "C ! 0 = [C ! 0 ! 0, C ! 0 ! 1]" using C(2) by (intro list2_nth) simp
  moreover have "C ! 1 = [C ! 1 ! 0, C ! 1 ! 1]" using C(2) by (intro list2_nth) simp
  moreover have "C ! 0 ! 0 = Fin (1 / 100)" "C ! 0 ! 1 = Fin 0" "C ! 1 ! 0 = Fin 0" "C ! 1 ! 1 = Fin (3 / 100)"
    using C(2) by (simp_all add: sample_cov_3)
  ultimately have "C = [[Fin (1 / 100), Fin 0], [Fin 0, Fin (3 / 100)]]" by simp
  with C1 show ?thesis by simp
qed

text \<open>
  Claim C4. Under the same conditions the covariance matrix is symmetric.
\<close>

theorem covariance_symmetric:
  assumes "\<forall>s \<in> set stocks. returns s = Some (map Fin (rs s)) \<and> length (rs s) = M"
    and "2 \<le> M"
  shows "\<exists>C. calculateCovarianceMatrix stocks returns = Inr C \<and>
             (\<forall>i < length stocks. \<forall>j < length stocks. C ! i ! j = C ! j ! i)"
  by (simp add: covariance_matrix_Fin [OF assms] sample_cov_commute)

theorem covariance_symmetric_witness:
  "[''A'' \<mapsto> map Fin [1 / 10, - 1 / 10, 0], ''B'' \<mapsto> map Fin [1 / 10, 1 / 10, - 2 / 10]] ''A''
     = Some (map Fin [1 / 10, - 1 / 10, 0]) \<and>
   [''A'' \<mapsto> map Fin [1 / 10, - 1 / 10, 0], ''B'' \<mapsto> map Fin [1 / 10, 1 / 10, - 2 / 10]] ''B''
     = Some (map Fin [1 / 10, 1 / 10, - 2 / 10]) \<and>
   (\<exists>C. calculateCovarianceMatrix [''A'', ''B'']
          [''A'' \<mapsto> map Fin [1 / 10, - 1 / 10, 0], ''B'' \<mapsto> map Fin [1 / 10, 1 / 10, - 2 / 10]]
          = Inr C \<and> C ! 0 ! 1 = C ! 1 ! 0)"
proof -
  let ?R = "[''A'' \<mapsto> map Fin [1 / 10, - 1 / 10, 0], ''B'' \<mapsto> map Fin [1 / 10, 1 / 10, - 2 / 10]]"
  let ?rs = "\<lambda>s. if s = ''A'' then [1 / 10, - 1 / 10, 0] else [1 / 10, 1 / 10, - 2 / 10 :: real]"
  have h: "\<forall>s \<in> set [''A'', ''B'']. ?R s = Some (map Fin (?rs s)) \<and> length (?rs s) = 3"
    by simp
  have le: "(2::nat) \<le> 3" by simp
  obtain C where "calculateCovarianceMatrix [''A'', ''B''] ?R = Inr C"
    and "\<forall>i < length [''A'', ''B'']. \<forall>j < length [''A'', ''B'']. C ! i ! j = C ! j ! i"
    using covariance_symmetric [OF h le] by blast
  then have "calculateCovarianceMatrix [''A'', ''B''] ?R = Inr C \<and> C ! 0 ! 1 = C ! 1 ! 0"
    by simp
  then show ?thesis by (intro conjI exI[of _ C]) simp_all
qed

section \<open>Matrices of finite numbers\<close>

lemma length_mk [simp]: "length (mk n f) = n"
  by (simp add: mk_def)

lemma nth_mk [simp]: "i < n \<Longrightarrow> mk n f ! i = map (\<lambda>j. Fin (f i j)) [0..<n]"
  by (simp add: mk_def)

lemma mat_get_mk [simp]: "i < n \<Longrightarrow> j < n \<Longrightarrow> mat_get (mk n f) i j = Fin (f i j)"
  by (simp add: mat_get_def arr_get_def)

lemma mk_cong: "(\<And>i j. i < n \<Longrightarrow> j < n \<Longrightarrow> f i j = g i j) \<Longrightarrow> mk n f = mk n g"
  by (simp add: mk_def)

lemma mk_eq_iff: "mk n f = mk n g \<longleftrightarrow> (\<forall>i<n. \<forall>j<n. f i j = g i j)"
  by (auto simp: mk_def list_eq_iff_nth_eq)

lemma mat_set_mk [simp]:
  assumes "i < n" "j < n"
  shows "mat_set (mk n f) i j (Fin v) = mk n (\<lambda>a b. if a = i \<and> b = j then v else f a b)"
proof -
  have "(map (\<lambda>j. Fin (f i j)) [0..<n])[j := Fin v]
        = map (\<lambda>b. Fin (if b = j then v else f i b)) [0..<n]"
    using assms by (auto simp: list_eq_iff_nth_eq nth_list_update)
  then show ?thesis
    using assms
    by (auto simp: mat_set_def arr_set_def mk_def list_eq_iff_nth_eq nth_list_update)
qed

lemma rotate_row_mk:
  assumes "p < n" "q < n" "r < n"
  shows "rotate_row p q (Fin c) (Fin s) (mk n f) r =
         mk n (if r \<noteq> p \<and> r \<noteq> q then
                 (\<lambda>a b. if a = r \<and> b = q then s * f p r + c * f q r
                        else if a = q \<and> b = r then s * f p r + c * f q r
                        else if a = r \<and> b = p then c * f p r - s * f q r
                        else if a = p \<and> b = r then c * f p r - s * f q r
                        else f a b)
               else f)"
  using assms by (simp add: rotate_row_def Let_def)

section \<open>The rotation of the working matrix\<close>

lemma row_rot_untouched:
  "p \<noteq> q \<Longrightarrow> row_rot c s p q k f p k = f p k \<and> row_rot c s p q k f q k = f q k"
  by (simp add: row_rot_def)

lemma row_rot_Suc_skip:
  "k = p \<or> k = q \<Longrightarrow> row_rot c s p q (Suc k) f = row_rot c s p q k f"
  by (intro ext) (auto simp: row_rot_def less_Suc_eq)

lemma row_rot_Suc:
  assumes "k \<noteq> p" "k \<noteq> q" "p \<noteq> q"
  shows "row_rot c s p q (Suc k) f a b =
         (if a = k \<and> b = q then s * f p k + c * f q k
          else if a = q \<and> b = k then s * f p k + c * f q k
          else if a = k \<and> b = p then c * f p k - s * f q k
          else if a = p \<and> b = k then c * f p k - s * f q k
          else row_rot c s p q k f a b)"
proof -
  consider "a = k" "b = q" | "a = q" "b = k" | "a = k" "b = p" | "a = p" "b = k"
    | "\<not> (a = k \<and> b = q)" "\<not> (a = q \<and> b = k)" "\<not> (a = k \<and> b = p)" "\<not> (a = p \<and> b = k)"
    by blast
  then show ?thesis
  proof cases
    case 1 then show ?thesis using assms by (simp add: row_rot_def)
  next
    case 2 then show ?thesis using assms by (simp add: row_rot_def)
  next
    case 3 then show ?thesis using assms by (simp add: row_rot_def)
  next
    case 4 then show ?thesis using assms by (simp add: row_rot_def)
  next
    case 5
    then show ?thesis using assms
      by (simp add: row_rot_def less_Suc_eq) blast
  qed
qed

lemma rotate_rows_mk:
  assumes "p < n" "q < n" "p \<noteq> q" "k \<le> n"
  shows "foldl (rotate_row p q (Fin c) (Fin s)) (mk n f) [0..<k] = mk n (row_rot c s p q k f)"
  using assms(4)
proof (induction k)
  case 0
  show ?case by (simp add: row_rot_def)
next
  case (Suc k)
  then have k: "k < n" by simp
  have "rotate_row p q (Fin c) (Fin s) (mk n (row_rot c s p q k f)) k
        = mk n (row_rot c s p q (Suc k) f)"
  proof (cases "k = p \<or> k = q")
    case True
    have "rotate_row p q (Fin c) (Fin s) (mk n (row_rot c s p q k f)) k
          = mk n (row_rot c s p q k f)"
      using True by (auto simp: rotate_row_def)
    then show ?thesis
      by (simp add: row_rot_Suc_skip [OF True])
  next
    case False
    then have kp: "k \<noteq> p" "k \<noteq> q" by simp_all
    have "rotate_row p q (Fin c) (Fin s) (mk n (row_rot c s p q k f)) k
          = mk n (\<lambda>a b. row_rot c s p q (Suc k) f a b)"
      unfolding rotate_row_mk [OF assms(1,2) k]
      using kp by (simp add: row_rot_untouched [OF assms(3)] row_rot_Suc [OF kp assms(3)] cong: if_cong)
    then show ?thesis by simp
  qed
  then show ?case
    using Suc by simp
qed

lemma row_rot_block:
  "p \<noteq> q \<Longrightarrow> row_rot c s p q k f p p = f p p \<and> row_rot c s p q k f q q = f q q
     \<and> row_rot c s p q k f p q = f p q"
  by (simp add: row_rot_def)

lemma rotate_values_mk:
  assumes "p < n" "q < n" "p \<noteq> q"
  shows "rotate_values n p q (Fin c) (Fin s) (mk n f) = mk n (rot_vals c s p q n f)"
proof -
  have "rotate_values n p q (Fin c) (Fin s) (mk n f) =
        mk n (\<lambda>a b. if a = p \<and> b = q then 0
                else if a = q \<and> b = p then 0
                else if a = q \<and> b = q then s * s * f p p + c * c * f q q + 2 * c * s * f p q
                else if a = p \<and> b = p then c * c * f p p + s * s * f q q - 2 * c * s * f p q
                else row_rot c s p q n f a b)"
    using assms
    by (simp add: rotate_values_def Let_def rotate_rows_mk row_rot_block)
  then show ?thesis
    by (simp add: rot_vals_def [abs_def])
qed

section \<open>The rotation of the accumulator\<close>

lemma rotate_vector_row_mk:
  assumes "p < n" "q < n" "r < n" "p \<noteq> q"
  shows "rotate_vector_row p q (Fin c) (Fin s) (mk n g) r =
         mk n (\<lambda>a b. if a = r then rot_vecs c s p q g a b else g a b)"
proof -
  have "rotate_vector_row p q (Fin c) (Fin s) (mk n g) r =
        mk n (\<lambda>a b. if a = r \<and> b = q then s * g r p + c * g r q
                else if a = r \<and> b = p then c * g r p - s * g r q else g a b)"
    using assms by (simp add: rotate_vector_row_def Let_def)
  also have "\<dots> = mk n (\<lambda>a b. if a = r then rot_vecs c s p q g a b else g a b)"
    using assms by (intro mk_cong) (simp add: rot_vecs_def)
  finally show ?thesis .
qed

lemma rotate_vector_rows_mk:
  assumes "p < n" "q < n" "p \<noteq> q" "k \<le> n"
  shows "foldl (rotate_vector_row p q (Fin c) (Fin s)) (mk n g) [0..<k] =
         mk n (\<lambda>a b. if a < k then rot_vecs c s p q g a b else g a b)"
  using assms(4)
proof (induction k)
  case 0
  show ?case by simp
next
  case (Suc k)
  then have k: "k < n" by simp
  let ?G = "\<lambda>a b. if a < k then rot_vecs c s p q g a b else g a b"
  have "rotate_vector_row p q (Fin c) (Fin s) (mk n ?G) k =
        mk n (\<lambda>a b. if a = k then rot_vecs c s p q ?G a b else ?G a b)"
    by (rule rotate_vector_row_mk [OF assms(1,2) k assms(3)])
  also have "\<dots> = mk n (\<lambda>a b. if a < Suc k then rot_vecs c s p q g a b else g a b)"
    by (intro mk_cong) (simp add: rot_vecs_def less_Suc_eq)
  finally show ?case
    using Suc by simp
qed

lemma rotate_vectors_mk:
  assumes "p < n" "q < n" "p \<noteq> q"
  shows "rotate_vectors n p q (Fin c) (Fin s) (mk n g) = mk n (rot_vecs c s p q g)"
proof -
  have "mk n (\<lambda>a b. if a < n then rot_vecs c s p q g a b else g a b) = mk n (rot_vecs c s p q g)"
    by (intro mk_cong) simp
  then show ?thesis
    using assms by (simp add: rotate_vectors_def rotate_vector_rows_mk)
qed

lemma jacobi_rotate_mk:
  assumes "p < n" "q < n" "p \<noteq> q"
  shows "jacobi_rotate n p q (mk n f, mk n g) =
         (mk n (rot_vals (cos (angle p q f)) (sin (angle p q f)) p q n f),
          mk n (rot_vecs (cos (angle p q f)) (sin (angle p q f)) p q g))"
  using assms
  by (simp add: jacobi_rotate_def rotation_angle_def angle_def Let_def
      rotate_values_mk rotate_vectors_mk)

section \<open>What a rotation preserves\<close>

lemma rot_vals_diag:
  assumes "p \<noteq> q"
  shows "rot_vals c s p q n f p p = c * c * f p p + s * s * f q q - 2 * c * s * f p q"
    and "rot_vals c s p q n f q q = s * s * f p p + c * c * f q q + 2 * c * s * f p q"
    and "i \<noteq> p \<Longrightarrow> i \<noteq> q \<Longrightarrow> rot_vals c s p q n f i i = f i i"
  using assms by (simp_all add: rot_vals_def row_rot_def)

lemma trace_rot_vals:
  assumes "p < n" "q < n" "p \<noteq> q" "c * c + s * s = 1"
  shows "trace n (rot_vals c s p q n f) = trace n f"
proof -
  have split: "(\<Sum>i<n. h i) = h p + (h q + (\<Sum>i\<in>{..<n} - {p} - {q}. h i))" for h :: "nat \<Rightarrow> real"
    using assms(1-3) by (simp add: sum.remove [where x = p] sum.remove [where x = q])
  have rest: "(\<Sum>i\<in>{..<n} - {p} - {q}. rot_vals c s p q n f i i) = (\<Sum>i\<in>{..<n} - {p} - {q}. f i i)"
    by (rule sum.cong) (simp_all add: rot_vals_diag(3) [OF assms(3)])
  have "rot_vals c s p q n f p p + rot_vals c s p q n f q q
        = (c * c + s * s) * (f p p + f q q)"
    by (simp add: rot_vals_diag [OF assms(3)] algebra_simps)
  then have "rot_vals c s p q n f p p + rot_vals c s p q n f q q = f p p + f q q"
    by (simp add: assms(4))
  then show ?thesis
    unfolding trace_def split [of "\<lambda>i. rot_vals c s p q n f i i"] split [of "\<lambda>i. f i i"] rest
    by simp
qed

lemma symmetric_rot_vals:
  assumes "symmetric n f" "p < n" "q < n" "p \<noteq> q"
  shows "symmetric n (rot_vals c s p q n f)"
  unfolding symmetric_def
proof (intro allI impI)
  fix a b assume ab: "a < n" "b < n"
  have sym: "f a b = f b a" using assms(1) ab by (simp add: symmetric_def)
  consider "a = p" | "a = q" | "a \<noteq> p" "a \<noteq> q" by blast
  then show "rot_vals c s p q n f a b = rot_vals c s p q n f b a"
  proof cases
    case 1
    then show ?thesis using assms(4) ab sym by (simp add: rot_vals_def row_rot_def)
  next
    case 2
    then show ?thesis using assms(4) ab sym by (simp add: rot_vals_def row_rot_def)
  next
    case 3
    then show ?thesis using assms(4) ab sym by (simp add: rot_vals_def row_rot_def)
  qed
qed

lemma dot_bilinear:
  "(\<Sum>r<n. (a * x r + b * y r) * (a' * z r + b' * w r :: real)) =
     a * a' * (\<Sum>r<n. x r * z r) + a * b' * (\<Sum>r<n. x r * w r)
     + b * a' * (\<Sum>r<n. y r * z r) + b * b' * (\<Sum>r<n. y r * w r)"
  by (simp add: algebra_simps sum.distrib sum_distrib_left)

lemma rot_vecs_lin:
  "p \<noteq> q \<Longrightarrow> rot_vecs c s p q g r k =
     (if k = p then c else if k = q then s else 1) * g r (if k = p \<or> k = q then p else k)
     + (if k = p then - s else if k = q then c else 0) * g r (if k = p \<or> k = q then q else k)"
  by (simp add: rot_vecs_def)

lemma orthonormal_rot_vecs:
  assumes "orthonormal n g" "p < n" "q < n" "p \<noteq> q" "c * c + s * s = 1"
  shows "orthonormal n (rot_vecs c s p q g)"
  unfolding orthonormal_def
proof (intro allI impI)
  fix i j assume ij: "i < n" "j < n"
  define \<alpha> where "\<alpha> k = (if k = p then c else if k = q then s else 1)" for k
  define \<beta> where "\<beta> k = (if k = p then - s else if k = q then c else 0)" for k
  define x where "x k = (if k = p \<or> k = q then p else k)" for k
  define y where "y k = (if k = p \<or> k = q then q else k)" for k
  define \<delta> :: "nat \<Rightarrow> nat \<Rightarrow> real" where "\<delta> a b = (if a = b then 1 else 0)" for a b
  have lin: "rot_vecs c s p q g r k = \<alpha> k * g r (x k) + \<beta> k * g r (y k)" for r k
    unfolding \<alpha>_def \<beta>_def x_def y_def by (rule rot_vecs_lin [OF assms(4)])
  have d: "(\<Sum>r<n. g r a * g r b) = \<delta> a b" if "a < n" "b < n" for a b
    using assms(1) that by (simp add: orthonormal_def coldot_def \<delta>_def)
  have xy: "x k < n" "y k < n" if "k < n" for k
    using that assms(2,3) by (simp_all add: x_def y_def)
  have "coldot n (rot_vecs c s p q g) i j =
        \<alpha> i * \<alpha> j * (\<Sum>r<n. g r (x i) * g r (x j)) + \<alpha> i * \<beta> j * (\<Sum>r<n. g r (x i) * g r (y j))
        + \<beta> i * \<alpha> j * (\<Sum>r<n. g r (y i) * g r (x j)) + \<beta> i * \<beta> j * (\<Sum>r<n. g r (y i) * g r (y j))"
    by (simp only: coldot_def lin dot_bilinear)
  also have "\<dots> = \<alpha> i * \<alpha> j * \<delta> (x i) (x j) + \<alpha> i * \<beta> j * \<delta> (x i) (y j)
        + \<beta> i * \<alpha> j * \<delta> (y i) (x j) + \<beta> i * \<beta> j * \<delta> (y i) (y j)"
    by (simp only: d xy ij)
  also have "\<dots> = (if i = j then 1 else 0)"
    using assms(4,5) by (auto simp: \<alpha>_def \<beta>_def x_def y_def \<delta>_def)
  finally show "coldot n (rot_vecs c s p q g) i j = (if i = j then 1 else 0)" .
qed

section \<open>The scan for the pivot\<close>

lemma pivot_ok_step:
  assumes "pivot_ok f S (mx, p, q)"
  shows "pivot_ok f (insert (i, j) S) (if mx < \<bar>f i j\<bar> then (\<bar>f i j\<bar>, i, j) else (mx, p, q))"
  using assms by (auto simp: pivot_ok_def)

lemma pivot_inner:
  assumes "i < n" "set js \<subseteq> {..<n}" "pivot_ok f S (mx, p, q)"
  shows "\<exists>mx' p' q'.
           foldl (\<lambda>(mx, p, q) j.
                    if \<bar>mat_get (mk n f) i j\<bar> > mx then (\<bar>mat_get (mk n f) i j\<bar>, i, j)
                    else (mx, p, q)) (Fin mx, p, q) js = (Fin mx', p', q') \<and>
           pivot_ok f (S \<union> {i} \<times> set js) (mx', p', q')"
  using assms(2,3)
proof (induction js arbitrary: mx p q S)
  case Nil
  then show ?case by simp
next
  case (Cons j js)
  then have j: "j < n" by simp
  obtain mx1 p1 q1 where r1: "(if mx < \<bar>f i j\<bar> then (\<bar>f i j\<bar>, i, j) else (mx, p, q)) = (mx1, p1, q1)"
    by (metis prod_cases3)
  have ok1: "pivot_ok f (insert (i, j) S) (mx1, p1, q1)"
    using pivot_ok_step [OF Cons.prems(2), of i j] r1 by simp
  have step: "(if \<bar>mat_get (mk n f) i j\<bar> > Fin mx then (\<bar>mat_get (mk n f) i j\<bar>, i, j) else (Fin mx, p, q))
              = (Fin mx1, p1, q1)"
    using r1 assms(1) j by (auto split: if_splits)
  have sub: "set js \<subseteq> {..<n}" using Cons.prems(1) by simp
  have eq: "insert (i, j) S \<union> {i} \<times> set js = S \<union> {i} \<times> set (j # js)" by auto
  show ?case
    using Cons.IH [OF sub ok1] by (simp add: step eq)
qed

lemma pivot_outer:
  assumes "set is \<subseteq> {..<n}" "pivot_ok f S (mx, p, q)"
  shows "\<exists>mx' p' q'.
           foldl (\<lambda>acc i.
                    foldl (\<lambda>(mx, p, q) j.
                             if \<bar>mat_get (mk n f) i j\<bar> > mx then (\<bar>mat_get (mk n f) i j\<bar>, i, j)
                             else (mx, p, q)) acc [i + 1..<n])
             (Fin mx, p, q) is = (Fin mx', p', q') \<and>
           pivot_ok f (S \<union> {(i, j). i \<in> set is \<and> i < j \<and> j < n}) (mx', p', q')"
  using assms
proof (induction "is" arbitrary: mx p q S)
  case Nil
  then show ?case by simp
next
  case (Cons i "is")
  then have i: "i < n" by simp
  obtain mx1 p1 q1 where
    r1: "foldl (\<lambda>(mx, p, q) j.
                  if \<bar>mat_get (mk n f) i j\<bar> > mx then (\<bar>mat_get (mk n f) i j\<bar>, i, j)
                  else (mx, p, q)) (Fin mx, p, q) [i + 1..<n] = (Fin mx1, p1, q1)"
    and ok1: "pivot_ok f (S \<union> {i} \<times> set [i + 1..<n]) (mx1, p1, q1)"
  proof -
    have "set [i + 1..<n] \<subseteq> {..<n}" by auto
    from pivot_inner [OF i this Cons.prems(2)] show ?thesis
      using that by blast
  qed
  have sub: "set is \<subseteq> {..<n}" using Cons.prems(1) by simp
  have eq: "S \<union> {i} \<times> set [i + 1..<n] \<union> {(a, j). a \<in> set is \<and> a < j \<and> j < n}
            = S \<union> {(a, j). a \<in> set (i # is) \<and> a < j \<and> j < n}"
    by auto
  show ?case
    unfolding foldl_Cons r1 eq [symmetric]
    by (rule Cons.IH [OF sub ok1])
qed

lemma find_pivot_mk:
  "\<exists>mx p q. find_pivot n (mk n f) = (Fin mx, p, q) \<and>
             pivot_ok f {(i, j). i < j \<and> j < n} (mx, p, q)"
proof -
  have ok0: "pivot_ok f {} (0, 0, 0)" by (simp add: pivot_ok_def)
  have eq: "{} \<union> {(i, j). i \<in> set [0..<n] \<and> i < j \<and> j < n} = {(i, j). i < j \<and> j < n}"
    by auto
  have sub: "set [0..<n] \<subseteq> {..<n}" by auto
  show ?thesis
    using pivot_outer [OF sub ok0] unfolding find_pivot_def eq .
qed

lemma find_pivot_valid:
  assumes "find_pivot n (mk n f) = (mx, p, q)" "\<not> mx < tolerance"
  shows "p < q \<and> q < n"
proof -
  obtain mx' p' q' where r: "find_pivot n (mk n f) = (Fin mx', p', q')"
    and ok: "pivot_ok f {(i, j). i < j \<and> j < n} (mx', p', q')"
    using find_pivot_mk by blast
  from r assms have "\<not> mx' < 1 / 10 ^ 10" "p' = p" "q' = q"
    by (simp_all add: tolerance_def)
  with ok show ?thesis by (auto simp: pivot_ok_def)
qed

lemma find_pivot_stop:
  "fst (find_pivot n (mk n f)) < tolerance \<longleftrightarrow> (\<forall>i j. i < j \<and> j < n \<longrightarrow> \<bar>f i j\<bar> < 1 / 10 ^ 10)"
proof -
  obtain mx p q where r: "find_pivot n (mk n f) = (Fin mx, p, q)"
    and ok: "pivot_ok f {(i, j). i < j \<and> j < n} (mx, p, q)"
    using find_pivot_mk by blast
  have "mx < 1 / 10 ^ 10 \<longleftrightarrow> (\<forall>i j. i < j \<and> j < n \<longrightarrow> \<bar>f i j\<bar> < 1 / 10 ^ 10)"
    using ok by (fastforce simp: pivot_ok_def)
  then show ?thesis by (simp add: r tolerance_def)
qed

section \<open>The main loop\<close>

lemma jacobi_loop_run:
  "iter \<le> 50 \<Longrightarrow>
   \<exists>k. iter + k \<le> 50 \<and>
       jacobi_loop n iter st = (iter + k, (jacobi_step n ^^ k) st) \<and>
       (\<forall>j<k. \<not> stops n ((jacobi_step n ^^ j) st)) \<and>
       (iter + k < 50 \<longrightarrow> stops n ((jacobi_step n ^^ k) st))"
proof (induction n iter st rule: jacobi_loop.induct)
  case (1 n iter st)
  obtain mx p q where piv: "find_pivot n (fst st) = (mx, p, q)"
    by (metis prod_cases3)
  show ?case
  proof (cases "iter < 50 \<and> \<not> mx < tolerance")
    case False
    then have "jacobi_loop n iter st = (iter, st)"
      by (subst jacobi_loop.simps) (auto simp: piv)
    moreover have "iter < 50 \<longrightarrow> stops n st"
      using False by (simp add: stops_def piv)
    ultimately show ?thesis
      using "1.prems" by (intro exI [of _ 0]) simp
  next
    case True
    then have it: "iter < 50" and ns: "\<not> mx < tolerance" by simp_all
    have step: "jacobi_rotate n p q st = jacobi_step n st"
      by (simp add: jacobi_step_def piv)
    have unf: "jacobi_loop n iter st = jacobi_loop n (iter + 1) (jacobi_step n st)"
      by (subst jacobi_loop.simps) (simp add: piv it ns step)
    have "iter + 1 \<le> 50" using it by simp
    from "1.IH" [OF it piv [symmetric] refl ns this]
    obtain k where k: "iter + 1 + k \<le> 50"
      "jacobi_loop n (iter + 1) (jacobi_rotate n p q st)
         = (iter + 1 + k, (jacobi_step n ^^ k) (jacobi_rotate n p q st))"
      "\<forall>j<k. \<not> stops n ((jacobi_step n ^^ j) (jacobi_rotate n p q st))"
      "iter + 1 + k < 50 \<longrightarrow> stops n ((jacobi_step n ^^ k) (jacobi_rotate n p q st))"
      by blast
    have ns0: "\<not> stops n st" using ns by (simp add: stops_def piv)
    have "\<forall>j<Suc k. \<not> stops n ((jacobi_step n ^^ j) st)"
    proof (intro allI impI)
      fix j assume "j < Suc k"
      then show "\<not> stops n ((jacobi_step n ^^ j) st)"
        using k(3) ns0 by (cases j) (simp_all add: funpow_swap1 step)
    qed
    then show ?thesis
      using k unf by (intro exI [of _ "Suc k"]) (simp add: funpow_swap1 step)
  qed
qed

lemma jacobi_step_mk:
  assumes "\<not> stops n (mk n f, mk n g)"
  shows "\<exists>p q c s. p < q \<and> q < n \<and> c * c + s * s = 1 \<and>
           jacobi_step n (mk n f, mk n g) = (mk n (rot_vals c s p q n f), mk n (rot_vecs c s p q g))"
proof -
  obtain mx p q where piv: "find_pivot n (mk n f) = (mx, p, q)"
    by (metis prod_cases3)
  with assms have "\<not> mx < tolerance" by (simp add: stops_def)
  from find_pivot_valid [OF piv this] have pq: "p < q" "q < n" by simp_all
  then have "p < n" "p \<noteq> q" by simp_all
  from jacobi_rotate_mk [OF this(1) pq(2) this(2)]
  have "jacobi_step n (mk n f, mk n g) =
        (mk n (rot_vals (cos (angle p q f)) (sin (angle p q f)) p q n f),
         mk n (rot_vecs (cos (angle p q f)) (sin (angle p q f)) p q g))"
    by (simp add: jacobi_step_def piv)
  moreover have "cos (angle p q f) * cos (angle p q f) + sin (angle p q f) * sin (angle p q f) = 1"
    using sin_cos_squared_add2 [of "angle p q f"] by (simp add: power2_eq_square)
  ultimately show ?thesis using pq by blast
qed

lemma steps_preserve:
  assumes "P f0 g0"
    and pres: "\<And>f g p q c s. P f g \<Longrightarrow> p < q \<Longrightarrow> q < n \<Longrightarrow> c * c + s * s = 1 \<Longrightarrow>
                 P (rot_vals c s p q n f) (rot_vecs c s p q g)"
    and "\<forall>j<k. \<not> stops n ((jacobi_step n ^^ j) (mk n f0, mk n g0))"
  shows "\<exists>f g. (jacobi_step n ^^ k) (mk n f0, mk n g0) = (mk n f, mk n g) \<and> P f g"
  using assms(3)
proof (induction k)
  case 0
  then show ?case using assms(1) by auto
next
  case (Suc k)
  have "\<forall>j<k. \<not> stops n ((jacobi_step n ^^ j) (mk n f0, mk n g0))"
    using Suc.prems by simp
  from Suc.IH [OF this]
  obtain f g where fg: "(jacobi_step n ^^ k) (mk n f0, mk n g0) = (mk n f, mk n g)" "P f g"
    by blast
  have "\<not> stops n ((jacobi_step n ^^ k) (mk n f0, mk n g0))"
    using Suc.prems by simp
  then have "\<not> stops n (mk n f, mk n g)" by (simp add: fg(1))
  from jacobi_step_mk [OF this] obtain p q c s where
    pq: "p < q" "q < n" "c * c + s * s = 1" and
    st: "jacobi_step n (mk n f, mk n g) = (mk n (rot_vals c s p q n f), mk n (rot_vecs c s p q g))"
    by blast
  have "(jacobi_step n ^^ Suc k) (mk n f0, mk n g0)
        = (mk n (rot_vals c s p q n f), mk n (rot_vecs c s p q g))"
    by (simp add: fg(1) st)
  moreover have "P (rot_vals c s p q n f) (rot_vecs c s p q g)"
    by (rule pres [OF fg(2) pq])
  ultimately show ?case by blast
qed

lemma jacobi_loop_mk:
  assumes "P f0 g0"
    and pres: "\<And>f g p q c s. P f g \<Longrightarrow> p < q \<Longrightarrow> q < n \<Longrightarrow> c * c + s * s = 1 \<Longrightarrow>
                 P (rot_vals c s p q n f) (rot_vecs c s p q g)"
  shows "\<exists>K f g. K \<le> 50 \<and> jacobi_loop n 0 (mk n f0, mk n g0) = (K, mk n f, mk n g) \<and> P f g"
proof -
  obtain k where k: "k \<le> 50"
    "jacobi_loop n 0 (mk n f0, mk n g0) = (k, (jacobi_step n ^^ k) (mk n f0, mk n g0))"
    "\<forall>j<k. \<not> stops n ((jacobi_step n ^^ j) (mk n f0, mk n g0))"
    using jacobi_loop_run [of 0 n "(mk n f0, mk n g0)"] by auto
  from steps_preserve [of P, OF assms(1) pres k(3)]
  obtain f g where "(jacobi_step n ^^ k) (mk n f0, mk n g0) = (mk n f, mk n g)" "P f g"
    by blast
  with k(1,2) show ?thesis
    by (intro exI [of _ k] exI [of _ f] exI [of _ g]) simp
qed

section \<open>The sort and the output\<close>

lemma mset_sort_insert: "mset (sort_insert cmp x ys) = add_mset x (mset ys)"
  by (induction ys) simp_all

lemma mset_js_sort: "mset (js_sort cmp xs) = mset xs"
  by (induction xs) (simp_all add: js_sort_def mset_sort_insert)

lemma set_js_sort: "set (js_sort cmp xs) = set xs"
  using mset_js_sort [of cmp xs] by (metis set_mset_mset)

lemma sorted_sort_insert:
  assumes "\<forall>y \<in> set ys. (cmp x y > Fin 0) = (k y > k x)"
    and "sorted_wrt (stable_desc k) ys" and "\<forall>y \<in> set ys. x < y"
  shows "sorted_wrt (stable_desc k) (sort_insert cmp x ys)"
  using assms
proof (induction ys)
  case Nil
  then show ?case by simp
next
  case (Cons y ys)
  show ?case
  proof (cases "k y > k x")
    case True
    have "set (sort_insert cmp x ys) = insert x (set ys)"
      using mset_sort_insert [of cmp x ys] by (metis set_mset_add_mset_insert set_mset_mset)
    then show ?thesis
      using Cons True by (auto simp: stable_desc_def)
  next
    case False
    then have "\<forall>z \<in> set (y # ys). stable_desc k x z"
      using Cons.prems by (fastforce simp: stable_desc_def)
    then show ?thesis
      using Cons.prems False by simp
  qed
qed

lemma sorted_js_sort:
  assumes "\<forall>a \<in> set xs. \<forall>b \<in> set xs. (cmp a b > Fin 0) = (k b > k a)"
    and "sorted_wrt (<) xs"
  shows "sorted_wrt (stable_desc k) (js_sort cmp xs)"
  using assms
proof (induction xs)
  case Nil
  then show ?case by (simp add: js_sort_def)
next
  case (Cons x xs)
  have "sorted_wrt (stable_desc k) (sort_insert cmp x (js_sort cmp xs))"
  proof (rule sorted_sort_insert)
    show "\<forall>y \<in> set (js_sort cmp xs). (cmp x y > Fin 0) = (k y > k x)"
      using Cons.prems(1) by (simp add: set_js_sort)
    show "sorted_wrt (stable_desc k) (js_sort cmp xs)"
      using Cons by simp
    show "\<forall>y \<in> set (js_sort cmp xs). x < y"
      using Cons.prems(2) by (simp add: set_js_sort)
  qed
  then show ?case by (simp add: js_sort_def)
qed

lemma diagonal_mk: "diagonal (mk n f) = map (\<lambda>i. Fin (f i i)) [0..<n]"
  by (simp add: diagonal_def arr_get_def)

lemma column_mk: "i < n \<Longrightarrow> column (mk n g) i = map (\<lambda>r. Fin (g r i)) [0..<n]"
  by (simp add: column_def mk_def arr_get_def)

lemma sorted_indices_diag:
  "mset (sorted_indices (map (\<lambda>i. Fin (k i)) [0..<n])) = mset [0..<n] \<and>
   sorted_wrt (stable_desc k) (sorted_indices (map (\<lambda>i. Fin (k i)) [0..<n]))"
proof -
  have "sorted_wrt (stable_desc k) (sorted_indices (map (\<lambda>i. Fin (k i)) [0..<n]))"
    unfolding sorted_indices_def
    by (rule sorted_js_sort) (simp_all add: arr_get_def sorted_wrt_upt)
  then show ?thesis
    by (simp add: sorted_indices_def mset_js_sort)
qed

lemma jacobi_output_mk:
  "\<exists>idx. idx = sorted_indices (diagonal (mk n f)) \<and>
         mset idx = mset [0..<n] \<and> sorted_wrt (stable_desc (\<lambda>i. f i i)) idx \<and>
         jacobi_output (mk n f, mk n g) =
           \<lparr> eig_values = map (\<lambda>i. Fin (f i i)) idx,
             eig_vectors = map (\<lambda>i. map (\<lambda>r. Fin (g r i)) [0..<n]) idx \<rparr>"
proof -
  let ?idx = "sorted_indices (diagonal (mk n f))"
  have p: "mset ?idx = mset [0..<n]" "sorted_wrt (stable_desc (\<lambda>i. f i i)) ?idx"
    using sorted_indices_diag [of "\<lambda>i. f i i" n] by (simp_all add: diagonal_mk)
  then have "set ?idx = {..<n}"
    by (metis atLeast_upt set_mset_mset)
  then have mem: "i < n" if "i \<in> set ?idx" for i
    using that by auto
  have "map (\<lambda>i. arr_get (diagonal (mk n f)) i) ?idx = map (\<lambda>i. Fin (f i i)) ?idx"
    by (rule map_cong) (simp_all add: mem diagonal_mk arr_get_def)
  moreover have "map (\<lambda>i. column (mk n g) i) ?idx = map (\<lambda>i. map (\<lambda>r. Fin (g r i)) [0..<n]) ?idx"
    by (rule map_cong) (simp_all add: mem column_mk)
  ultimately show ?thesis
    using p by (simp add: jacobi_output_def Let_def)
qed

lemma Fin_matrix_mk: "square n A \<Longrightarrow> map (map Fin) A = mk n (\<lambda>i j. A ! i ! j)"
  by (auto simp: square_def mk_def list_eq_iff_nth_eq)

lemma identity_matrix_mk: "identity_matrix n = mk n (\<lambda>i j. if i = j then 1 else 0)"
  by (simp add: identity_matrix_def mk_def)

lemma orthonormal_identity: "orthonormal n (\<lambda>i j. if i = j then 1 else 0)"
  by (simp add: orthonormal_def coldot_def if_distrib [of "\<lambda>x. x * _"] cong: if_cong)

lemma js_dot_Fin:
  "js_dot (map (\<lambda>r. Fin (x r)) [0..<n]) (map (\<lambda>r. Fin (y r)) [0..<n]) = Fin (\<Sum>r<n. x r * y r)"
proof -
  have "map (\<lambda>(a, b). a * b) (zip (map (\<lambda>r. Fin (x r)) [0..<n]) (map (\<lambda>r. Fin (y r)) [0..<n]))
        = map Fin (map (\<lambda>r. x r * y r) [0..<n])"
    by (simp add: zip_map_map zip_same_conv_map)
  then show ?thesis
    by (simp add: js_dot_def interv_sum_list_conv_sum_set_nat atLeast0LessThan del: map_map)
qed

lemma sum_list_perm:
  assumes "mset idx = mset [0..<n]"
  shows "sum_list (map h idx) = (\<Sum>i<n. h i :: real)"
proof -
  have "sum_list (map h idx) = sum_mset (image_mset h (mset idx))"
    by (metis mset_map sum_mset_sum_list)
  also have "\<dots> = sum_list (map h [0..<n])"
    unfolding assms by (metis mset_map sum_mset_sum_list)
  finally show ?thesis
    by (simp add: interv_sum_list_conv_sum_set_nat atLeast0LessThan)
qed

lemma jacobiMethod_mk:
  assumes "square n A" and "P (\<lambda>i j. A ! i ! j) (\<lambda>i j. if i = j then 1 else 0)"
    and pres: "\<And>f g p q c s. P f g \<Longrightarrow> p < q \<Longrightarrow> q < n \<Longrightarrow> c * c + s * s = 1 \<Longrightarrow>
                 P (rot_vals c s p q n f) (rot_vecs c s p q g)"
  shows "\<exists>f g idx. P f g \<and>
           snd (jacobi_loop n 0 (map (map Fin) A, identity_matrix n)) = (mk n f, mk n g) \<and>
           idx = sorted_indices (diagonal (mk n f)) \<and>
           mset idx = mset [0..<n] \<and> sorted_wrt (stable_desc (\<lambda>i. f i i)) idx \<and>
           jacobiMethod (map (map Fin) A) =
             \<lparr> eig_values = map (\<lambda>i. Fin (f i i)) idx,
               eig_vectors = map (\<lambda>i. map (\<lambda>r. Fin (g r i)) [0..<n]) idx \<rparr>"
proof -
  have len: "length (map (map Fin) A) = n" using assms(1) by (simp add: square_def)
  have "\<exists>K f g. K \<le> 50 \<and>
          jacobi_loop n 0 (mk n (\<lambda>i j. A ! i ! j), mk n (\<lambda>i j. if i = j then 1 else 0))
            = (K, mk n f, mk n g) \<and> P f g"
    by (rule jacobi_loop_mk [of P, OF assms(2)]) (rule pres; assumption)
  then obtain K f g where fg: "jacobi_loop n 0 (mk n (\<lambda>i j. A ! i ! j), mk n (\<lambda>i j. if i = j then 1 else 0))
      = (K, mk n f, mk n g)" "P f g"
    by (elim exE conjE) (rule that, assumption+)
  then have loop: "snd (jacobi_loop n 0 (map (map Fin) A, identity_matrix n)) = (mk n f, mk n g)"
    by (simp add: Fin_matrix_mk [OF assms(1)] identity_matrix_mk)
  obtain idx where idx: "idx = sorted_indices (diagonal (mk n f))"
    "mset idx = mset [0..<n]" "sorted_wrt (stable_desc (\<lambda>i. f i i)) idx"
    "jacobi_output (mk n f, mk n g) =
           \<lparr> eig_values = map (\<lambda>i. Fin (f i i)) idx,
             eig_vectors = map (\<lambda>i. map (\<lambda>r. Fin (g r i)) [0..<n]) idx \<rparr>"
    using jacobi_output_mk [of n f g] by (elim exE conjE) (rule that, assumption+)
  have "jacobiMethod (map (map Fin) A) = jacobi_output (mk n f, mk n g)"
    unfolding jacobiMethod_def Let_def len loop ..
  then have "jacobiMethod (map (map Fin) A) =
           \<lparr> eig_values = map (\<lambda>i. Fin (f i i)) idx,
             eig_vectors = map (\<lambda>i. map (\<lambda>r. Fin (g r i)) [0..<n]) idx \<rparr>"
    by (simp only: idx(4))
  with idx(1-3) fg(2) loop show ?thesis
    by (intro exI [of _ f] exI [of _ g] exI [of _ idx] conjI)
qed

section \<open>The eigensolver: the properties\<close>

text \<open>
  Claim C1. For every \<open>N \<times> N\<close> matrix of finite numbers (symmetric or not),
  \<^verbatim>\<open>jacobiMethod\<close> returns \<open>N\<close> eigenvalues whose sum is the trace of the input,
  whether the loop stopped at its convergence test or at the cap of 50 passes: each
  rotation preserves the trace, and the sort only permutes the diagonal.
\<close>

theorem eigenvalues_sum_to_trace:
  assumes "square n A"
  shows "length (eig_values (jacobiMethod (map (map Fin) A))) = n \<and>
         js_sum (eig_values (jacobiMethod (map (map Fin) A))) = Fin (\<Sum>i<n. A ! i ! i)"
proof -
  let ?P = "\<lambda>f g. trace n f = (\<Sum>i<n. A ! i ! i)"
  have "\<exists>f g idx. ?P f g \<and>
           snd (jacobi_loop n 0 (map (map Fin) A, identity_matrix n)) = (mk n f, mk n g) \<and>
           idx = sorted_indices (diagonal (mk n f)) \<and>
           mset idx = mset [0..<n] \<and> sorted_wrt (stable_desc (\<lambda>i. f i i)) idx \<and>
           jacobiMethod (map (map Fin) A) =
             \<lparr> eig_values = map (\<lambda>i. Fin (f i i)) idx,
               eig_vectors = map (\<lambda>i. map (\<lambda>r. Fin (g r i)) [0..<n]) idx \<rparr>"
  proof (rule jacobiMethod_mk [OF assms])
    show "trace n (\<lambda>i j. A ! i ! j) = (\<Sum>i<n. A ! i ! i)" by (simp add: trace_def)
  next
    fix f g :: "nat \<Rightarrow> nat \<Rightarrow> real" and p q :: nat and c s :: real
    assume "trace n f = (\<Sum>i<n. A ! i ! i)" "p < q" "q < n" "c * c + s * s = 1"
    then show "trace n (rot_vals c s p q n f) = (\<Sum>i<n. A ! i ! i)"
      by (simp add: trace_rot_vals)
  qed
  then obtain f g idx where r: "trace n f = (\<Sum>i<n. A ! i ! i)" "mset idx = mset [0..<n]"
    "jacobiMethod (map (map Fin) A) =
             \<lparr> eig_values = map (\<lambda>i. Fin (f i i)) idx,
               eig_vectors = map (\<lambda>i. map (\<lambda>r. Fin (g r i)) [0..<n]) idx \<rparr>"
    by (elim exE conjE) (rule that, assumption+)
  have "length idx = n" using mset_eq_length [OF r(2)] by simp
  moreover have "js_sum (map (\<lambda>i. Fin (f i i)) idx) = Fin (\<Sum>i<n. f i i)"
    using js_sum_Fin [of "map (\<lambda>i. f i i) idx"] sum_list_perm [OF r(2), of "\<lambda>i. f i i"]
    by (simp add: o_def)
  ultimately show ?thesis
    using r(1) by (simp add: r(3) trace_def)
qed

theorem eigenvalues_sum_to_trace_witness:
  "square 2 [[2, 1], [1, 2]] \<and>
   length (eig_values (jacobiMethod (map (map Fin) [[2, 1], [1, 2]]))) = 2 \<and>
   js_sum (eig_values (jacobiMethod (map (map Fin) [[2, 1], [1, 2]]))) = Fin 4"
proof -
  have sq: "square 2 [[2, 1], [1, 2]]" by (simp add: square_def)
  have "(\<Sum>i<2. [[2, 1], [1, 2 :: real]] ! i ! i) = 4"
    by (simp add: numeral_2_eq_2)
  with eigenvalues_sum_to_trace [OF sq] sq show ?thesis by simp
qed

lemma perm_upt_props:
  assumes "mset idx = mset [0..<n]"
  shows "length idx = n" "distinct idx" "\<And>k. k < n \<Longrightarrow> idx ! k < n"
proof -
  show len: "length idx = n" using mset_eq_length [OF assms] by simp
  show "distinct idx" using mset_eq_imp_distinct_iff [OF assms] by simp
  have s: "set idx = set [0..<n]" by (rule mset_eq_setD [OF assms])
  show "idx ! k < n" if "k < n" for k
  proof -
    have "idx ! k \<in> set idx" using that len by simp
    then show ?thesis unfolding s by simp
  qed
qed

lemma stable_desc_nth:
  assumes "sorted_wrt (stable_desc k) idx" "a < b" "b < length idx"
  shows "k (idx ! b) \<le> k (idx ! a)" and "k (idx ! a) = k (idx ! b) \<Longrightarrow> idx ! a < idx ! b"
proof -
  have r: "stable_desc k (idx ! a) (idx ! b)"
    by (rule sorted_wrt_nth_less [OF assms])
  then show "k (idx ! b) \<le> k (idx ! a)" by (auto simp: stable_desc_def)
  show "idx ! a < idx ! b" if "k (idx ! a) = k (idx ! b)"
    using r that by (simp add: stable_desc_def)
qed

lemma Fin_le [simp]: "Fin a \<le> Fin b \<longleftrightarrow> a \<le> b"
  by (auto simp: less_eq_jsnum_def)

lemma upper_triangle_bound:
  assumes "symmetric n f"
  shows "(\<forall>i<n. \<forall>j<n. i \<noteq> j \<longrightarrow> \<bar>f i j\<bar> < (t::real)) \<longleftrightarrow> (\<forall>i j. i < j \<and> j < n \<longrightarrow> \<bar>f i j\<bar> < t)"
proof
  assume "\<forall>i<n. \<forall>j<n. i \<noteq> j \<longrightarrow> \<bar>f i j\<bar> < t"
  then show "\<forall>i j. i < j \<and> j < n \<longrightarrow> \<bar>f i j\<bar> < t" by auto
next
  assume h: "\<forall>i j. i < j \<and> j < n \<longrightarrow> \<bar>f i j\<bar> < t"
  show "\<forall>i<n. \<forall>j<n. i \<noteq> j \<longrightarrow> \<bar>f i j\<bar> < t"
  proof (intro allI impI)
    fix i j assume ij: "i < n" "j < n" "i \<noteq> j"
    show "\<bar>f i j\<bar> < t"
    proof (cases "i < j")
      case True
      with h ij(2) show ?thesis by blast
    next
      case False
      with ij(3) have "j < i" by simp
      with h ij(1) have "\<bar>f j i\<bar> < t" by blast
      moreover have "f i j = f j i" using assms ij by (simp add: symmetric_def)
      ultimately show ?thesis by simp
    qed
  qed
qed

lemma stops_converged:
  assumes "symmetric n f"
  shows "stops n (mk n f, mk n g) \<longleftrightarrow> converged n (mk n f)"
proof -
  have "converged n (mk n f) \<longleftrightarrow> (\<forall>i<n. \<forall>j<n. i \<noteq> j \<longrightarrow> \<bar>f i j\<bar> < 1 / 10 ^ 10)"
    by (simp add: converged_def tolerance_def)
  then show ?thesis
    unfolding upper_triangle_bound [OF assms] by (simp add: stops_def find_pivot_stop)
qed

lemma run_converged:
  assumes "symmetric n f0"
    and run: "\<forall>j<k. \<not> stops n ((jacobi_step n ^^ j) (mk n f0, mk n g0))"
    and "j \<le> k"
  shows "stops n ((jacobi_step n ^^ j) (mk n f0, mk n g0))
         \<longleftrightarrow> converged n (fst ((jacobi_step n ^^ j) (mk n f0, mk n g0)))"
proof -
  have pre: "\<forall>i<j. \<not> stops n ((jacobi_step n ^^ i) (mk n f0, mk n g0))"
    using run assms(3) by simp
  have "\<exists>f g. (jacobi_step n ^^ j) (mk n f0, mk n g0) = (mk n f, mk n g) \<and> symmetric n f"
  proof (rule steps_preserve [of "\<lambda>f g. symmetric n f", OF assms(1) _ pre])
    fix f g :: "nat \<Rightarrow> nat \<Rightarrow> real" and p q :: nat and c s :: real
    assume "symmetric n f" "p < q" "q < n" "c * c + s * s = 1"
    then show "symmetric n (rot_vals c s p q n f)"
      by (intro symmetric_rot_vals) simp_all
  qed
  then obtain f g where "(jacobi_step n ^^ j) (mk n f0, mk n g0) = (mk n f, mk n g)"
    "symmetric n f"
    by blast
  then show ?thesis
    by (simp add: stops_converged)
qed

subsection \<open>A run on a concrete matrix\<close>

text \<open>
  The matrix with rows \<open>(2, 1)\<close> and \<open>(1, 2)\<close>: the scan finds the entry \<open>(0, 1)\<close>, the
  angle is \<open>\<pi> / 4\<close>, one rotation makes the matrix diagonal with the entries 1 and 3,
  and the second pass stops at the convergence test.
\<close>

lemma upt_0_2: "[0..<2] = [0, 1]" "[Suc 0..<2] = [1]" "[1..<2] = [1::nat]" "[2..<2] = []"
  by (simp_all add: upt_rec)

lemma ex_pivot: "find_pivot 2 [[Fin 2, Fin 1], [Fin 1, Fin 2]] = (Fin 1, 0, Suc 0)"
  by (simp add: find_pivot_def upt_0_2 mat_get_def arr_get_def)

lemma ex_pivot': "find_pivot 2 [[Fin 1, Fin 0], [Fin 0, Fin 3]] = (Fin 0, 0, 0)"
  by (simp add: find_pivot_def upt_0_2 mat_get_def arr_get_def)

lemma ex_angle: "rotation_angle 0 (Suc 0) [[Fin 2, Fin 1], [Fin 1, Fin 2]] = Fin (pi / 4)"
  by (simp add: rotation_angle_def mat_get_def arr_get_def atan2_def)

lemma ex_values:
  "rotate_values 2 0 (Suc 0) (Fin (sqrt 2 / 2)) (Fin (sqrt 2 / 2)) [[Fin 2, Fin 1], [Fin 1, Fin 2]]
     = [[Fin 1, Fin 0], [Fin 0, Fin 3]]"
  by (simp add: rotate_values_def rotate_row_def upt_0_2 mat_get_def mat_set_def arr_get_def
      arr_set_def Let_def)

lemma ex_vectors:
  "rotate_vectors 2 0 (Suc 0) (Fin (sqrt 2 / 2)) (Fin (sqrt 2 / 2)) (identity_matrix 2)
     = [[Fin (sqrt 2 / 2), Fin (sqrt 2 / 2)], [Fin (- (sqrt 2 / 2)), Fin (sqrt 2 / 2)]]"
  by (simp add: rotate_vectors_def rotate_vector_row_def identity_matrix_def upt_0_2 mat_get_def
      mat_set_def arr_get_def arr_set_def Let_def)

lemma ex_rotate:
  "jacobi_rotate 2 0 (Suc 0) ([[Fin 2, Fin 1], [Fin 1, Fin 2]], identity_matrix 2)
     = ([[Fin 1, Fin 0], [Fin 0, Fin 3]],
        [[Fin (sqrt 2 / 2), Fin (sqrt 2 / 2)], [Fin (- (sqrt 2 / 2)), Fin (sqrt 2 / 2)]])"
  by (simp add: jacobi_rotate_def Let_def ex_angle cos_45 sin_45 ex_values ex_vectors)

lemma ex_loop:
  "jacobi_loop 2 0 ([[Fin 2, Fin 1], [Fin 1, Fin 2]], identity_matrix 2)
     = (Suc 0, [[Fin 1, Fin 0], [Fin 0, Fin 3]],
        [[Fin (sqrt 2 / 2), Fin (sqrt 2 / 2)], [Fin (- (sqrt 2 / 2)), Fin (sqrt 2 / 2)]])"
  by (subst jacobi_loop.simps, simp add: ex_pivot tolerance_def ex_rotate,
      subst jacobi_loop.simps, simp add: ex_pivot' tolerance_def)

lemma ex_square: "square 2 [[2, 1], [1, 2]]"
  by (simp add: square_def)

text \<open>
  Claim C2. For every \<open>N \<times> N\<close> matrix of finite numbers, with \<open>vals\<close> and \<open>vecs\<close> the
  working matrix and the accumulator at the exit of the loop, the result is read off
  through one permutation \<open>idx\<close> of the indices \<open>0, \<dots>, N - 1\<close>: eigenvalue \<open>k\<close> is the
  diagonal entry \<open>idx[k]\<close> of \<open>vals\<close>, eigenvector \<open>k\<close> is column \<open>idx[k]\<close> of \<open>vecs\<close> read
  out as a sequence of length \<open>N\<close>, the eigenvalues are in non-increasing order, and
  equal eigenvalues keep the order of their indices (the sort is stable).
\<close>

theorem eigenvalues_sorted_stable:
  assumes "square n A"
  shows "\<exists>vals vecs idx.
           snd (jacobi_loop n 0 (map (map Fin) A, identity_matrix n)) = (vals, vecs) \<and>
           idx = sorted_indices (diagonal vals) \<and>
           mset idx = mset [0..<n] \<and>
           eig_values (jacobiMethod (map (map Fin) A)) = map (\<lambda>i. mat_get vals i i) idx \<and>
           eig_vectors (jacobiMethod (map (map Fin) A)) = map (\<lambda>i. column vecs i) idx \<and>
           (\<forall>k<n. length (eig_vectors (jacobiMethod (map (map Fin) A)) ! k) = n) \<and>
           sorted_wrt (\<lambda>x y. y \<le> x) (eig_values (jacobiMethod (map (map Fin) A))) \<and>
           (\<forall>a b. a < b \<and> b < n \<and>
                  eig_values (jacobiMethod (map (map Fin) A)) ! a
                    = eig_values (jacobiMethod (map (map Fin) A)) ! b
                  \<longrightarrow> idx ! a < idx ! b)"
proof -
  have "\<exists>f g idx. True \<and>
           snd (jacobi_loop n 0 (map (map Fin) A, identity_matrix n)) = (mk n f, mk n g) \<and>
           idx = sorted_indices (diagonal (mk n f)) \<and>
           mset idx = mset [0..<n] \<and> sorted_wrt (stable_desc (\<lambda>i. f i i)) idx \<and>
           jacobiMethod (map (map Fin) A) =
             \<lparr> eig_values = map (\<lambda>i. Fin (f i i)) idx,
               eig_vectors = map (\<lambda>i. map (\<lambda>r. Fin (g r i)) [0..<n]) idx \<rparr>"
    by (rule jacobiMethod_mk [of n A "\<lambda>f g. True", OF assms]) simp_all
  then obtain f g idx where
    loop: "snd (jacobi_loop n 0 (map (map Fin) A, identity_matrix n)) = (mk n f, mk n g)"
    and idx: "idx = sorted_indices (diagonal (mk n f))" "mset idx = mset [0..<n]"
      "sorted_wrt (stable_desc (\<lambda>i. f i i)) idx"
    and out: "jacobiMethod (map (map Fin) A) =
             \<lparr> eig_values = map (\<lambda>i. Fin (f i i)) idx,
               eig_vectors = map (\<lambda>i. map (\<lambda>r. Fin (g r i)) [0..<n]) idx \<rparr>"
    by (elim exE conjE) (rule that, assumption+)
  note pp = perm_upt_props [OF idx(2)]
  have mem: "i < n" if "i \<in> set idx" for i
    using that pp(1,3) by (auto simp: in_set_conv_nth)
  have v: "eig_values (jacobiMethod (map (map Fin) A)) = map (\<lambda>i. mat_get (mk n f) i i) idx"
    unfolding out by (simp add: mem)
  have w: "eig_vectors (jacobiMethod (map (map Fin) A)) = map (\<lambda>i. column (mk n g) i) idx"
    unfolding out by (simp add: mem column_mk)
  have l: "\<forall>k<n. length (eig_vectors (jacobiMethod (map (map Fin) A)) ! k) = n"
    unfolding out by (simp add: pp(1))
  have s: "sorted_wrt (\<lambda>x y. y \<le> x) (eig_values (jacobiMethod (map (map Fin) A)))"
  proof -
    have "sorted_wrt (\<lambda>a b. Fin (f b b) \<le> Fin (f a a)) idx"
      by (rule sorted_wrt_mono_rel [OF _ idx(3)]) (auto simp: stable_desc_def)
    then show ?thesis
      unfolding out by (simp add: sorted_wrt_map)
  qed
  have t: "\<forall>a b. a < b \<and> b < n \<and>
                  eig_values (jacobiMethod (map (map Fin) A)) ! a
                    = eig_values (jacobiMethod (map (map Fin) A)) ! b
                  \<longrightarrow> idx ! a < idx ! b"
  proof (intro allI impI, elim conjE)
    fix a b assume ab: "a < b" "b < n"
      and eq: "eig_values (jacobiMethod (map (map Fin) A)) ! a
                 = eig_values (jacobiMethod (map (map Fin) A)) ! b"
    from ab have "a < n" by simp
    with eq ab have "f (idx ! a) (idx ! a) = f (idx ! b) (idx ! b)"
      unfolding out by (simp add: pp(1))
    with stable_desc_nth(2) [OF idx(3) ab(1)] ab(2) show "idx ! a < idx ! b"
      by (simp add: pp(1))
  qed
  from loop idx(1,2) v w l s t show ?thesis
    by (intro exI [of _ "mk n f"] exI [of _ "mk n g"] exI [of _ idx] conjI)
qed

theorem eigenvalues_sorted_stable_witness:
  "square 2 [[2, 1], [1, 2]] \<and>
   eig_values (jacobiMethod (map (map Fin) [[2, 1], [1, 2]])) = [Fin 3, Fin 1] \<and>
   eig_vectors (jacobiMethod (map (map Fin) [[2, 1], [1, 2]]))
     = [[Fin (sqrt 2 / 2), Fin (sqrt 2 / 2)], [Fin (sqrt 2 / 2), Fin (- (sqrt 2 / 2))]] \<and>
   sorted_wrt (\<lambda>x y. y \<le> x) (eig_values (jacobiMethod (map (map Fin) [[2, 1], [1, 2]])))"
proof -
  let ?M = "map (map Fin) [[2, 1], [1, 2]]"
  obtain vals vecs idx where
    loop: "snd (jacobi_loop 2 0 (?M, identity_matrix 2)) = (vals, vecs)"
    and idx: "idx = sorted_indices (diagonal vals)"
    and v: "eig_values (jacobiMethod ?M) = map (\<lambda>i. mat_get vals i i) idx"
    and w: "eig_vectors (jacobiMethod ?M) = map (\<lambda>i. column vecs i) idx"
    and s: "sorted_wrt (\<lambda>x y. y \<le> x) (eig_values (jacobiMethod ?M))"
    using eigenvalues_sorted_stable [OF ex_square] by (elim exE conjE) (rule that, assumption+)
  from loop have vals: "vals = [[Fin 1, Fin 0], [Fin 0, Fin 3]]"
    and vecs: "vecs = [[Fin (sqrt 2 / 2), Fin (sqrt 2 / 2)], [Fin (- (sqrt 2 / 2)), Fin (sqrt 2 / 2)]]"
    by (simp_all add: ex_loop)
  have "idx = [1, 0]"
    unfolding idx vals
    by (simp add: diagonal_def sorted_indices_def js_sort_def upt_0_2 arr_get_def)
  then show ?thesis
    using v w s ex_square
    by (simp add: vals vecs mat_get_def arr_get_def column_def)
qed

text \<open>
  Claim C6. For every \<open>N \<times> N\<close> matrix of finite numbers the \<open>N\<close> eigenvectors returned
  are of unit length and pairwise orthogonal: the inner product of eigenvectors \<open>k\<close> and
  \<open>l\<close> is 1 when \<open>k = l\<close> and 0 otherwise. This holds whether or not the loop stopped
  before the cap of 50 passes, so in particular when it did.
\<close>

theorem eigenvectors_orthonormal:
  assumes "square n A"
  shows "length (eig_vectors (jacobiMethod (map (map Fin) A))) = n \<and>
         (\<forall>k<n. \<forall>l<n.
            js_dot (eig_vectors (jacobiMethod (map (map Fin) A)) ! k)
                   (eig_vectors (jacobiMethod (map (map Fin) A)) ! l)
              = Fin (if k = l then 1 else 0))"
proof -
  have "\<exists>f g idx. orthonormal n g \<and>
           snd (jacobi_loop n 0 (map (map Fin) A, identity_matrix n)) = (mk n f, mk n g) \<and>
           idx = sorted_indices (diagonal (mk n f)) \<and>
           mset idx = mset [0..<n] \<and> sorted_wrt (stable_desc (\<lambda>i. f i i)) idx \<and>
           jacobiMethod (map (map Fin) A) =
             \<lparr> eig_values = map (\<lambda>i. Fin (f i i)) idx,
               eig_vectors = map (\<lambda>i. map (\<lambda>r. Fin (g r i)) [0..<n]) idx \<rparr>"
  proof (rule jacobiMethod_mk [of n A "\<lambda>f g. orthonormal n g", OF assms])
    show "orthonormal n (\<lambda>i j. if i = j then 1 else 0)" by (rule orthonormal_identity)
  next
    fix f g :: "nat \<Rightarrow> nat \<Rightarrow> real" and p q :: nat and c s :: real
    assume "orthonormal n g" "p < q" "q < n" "c * c + s * s = 1"
    then show "orthonormal n (rot_vecs c s p q g)"
      by (intro orthonormal_rot_vecs) simp_all
  qed
  then obtain f g idx where g: "orthonormal n g" and idx: "mset idx = mset [0..<n]"
    and out: "jacobiMethod (map (map Fin) A) =
             \<lparr> eig_values = map (\<lambda>i. Fin (f i i)) idx,
               eig_vectors = map (\<lambda>i. map (\<lambda>r. Fin (g r i)) [0..<n]) idx \<rparr>"
    by (elim exE conjE) (rule that, assumption+)
  note pp = perm_upt_props [OF idx]
  have "js_dot (eig_vectors (jacobiMethod (map (map Fin) A)) ! k)
               (eig_vectors (jacobiMethod (map (map Fin) A)) ! l)
        = Fin (if k = l then 1 else 0)" if kl: "k < n" "l < n" for k l
  proof -
    have "js_dot (eig_vectors (jacobiMethod (map (map Fin) A)) ! k)
                 (eig_vectors (jacobiMethod (map (map Fin) A)) ! l)
          = Fin (coldot n g (idx ! k) (idx ! l))"
      unfolding out using kl by (simp add: pp(1) js_dot_Fin coldot_def)
    also have "coldot n g (idx ! k) (idx ! l) = (if idx ! k = idx ! l then 1 else 0)"
      using g pp(3) [OF kl(1)] pp(3) [OF kl(2)] by (simp add: orthonormal_def)
    also have "idx ! k = idx ! l \<longleftrightarrow> k = l"
      using kl pp(1,2) by (simp add: nth_eq_iff_index_eq)
    finally show ?thesis .
  qed
  then show ?thesis
    unfolding out by (simp add: pp(1))
qed

theorem eigenvectors_orthonormal_witness:
  "square 2 [[2, 1], [1, 2]] \<and>
   js_dot (eig_vectors (jacobiMethod (map (map Fin) [[2, 1], [1, 2]])) ! 0)
          (eig_vectors (jacobiMethod (map (map Fin) [[2, 1], [1, 2]])) ! 0) = Fin 1 \<and>
   js_dot (eig_vectors (jacobiMethod (map (map Fin) [[2, 1], [1, 2]])) ! 0)
          (eig_vectors (jacobiMethod (map (map Fin) [[2, 1], [1, 2]])) ! 1) = Fin 0 \<and>
   js_dot (eig_vectors (jacobiMethod (map (map Fin) [[2, 1], [1, 2]])) ! 1)
          (eig_vectors (jacobiMethod (map (map Fin) [[2, 1], [1, 2]])) ! 1) = Fin 1"
proof -
  note t = eigenvectors_orthonormal [OF ex_square, THEN conjunct2, rule_format]
  have "(0::nat) < 2" "(1::nat) < 2" by simp_all
  from t [OF this(1) this(1)] t [OF this(1) this(2)] t [OF this(2) this(2)] ex_square
  show ?thesis by simp
qed

text \<open>
  Claim C7. The loop of the solver ends after at most 50 passes on every input. On a
  symmetric matrix of finite numbers it performs \<open>K \<le> 50\<close> rotations, where no working
  matrix before the \<open>K\<close>-th rotation has its largest off-diagonal magnitude below the
  tolerance \<open>1e-10\<close> and, when \<open>K < 50\<close>, the matrix after the \<open>K\<close>-th has; and in both
  cases \<^verbatim>\<open>jacobiMethod\<close> returns the output read off the state reached, a value and
  not an error.
\<close>

theorem jacobi_terminates:
  "fst (jacobi_loop n 0 st) \<le> 50 \<and>
   (square n A \<and> (\<forall>i<n. \<forall>j<n. A ! i ! j = A ! j ! i) \<longrightarrow>
      (\<exists>K\<le>50.
         jacobi_loop n 0 (map (map Fin) A, identity_matrix n)
           = (K, (jacobi_step n ^^ K) (map (map Fin) A, identity_matrix n)) \<and>
         (\<forall>j<K. \<not> converged n (fst ((jacobi_step n ^^ j) (map (map Fin) A, identity_matrix n)))) \<and>
         (K < 50 \<longrightarrow> converged n (fst ((jacobi_step n ^^ K) (map (map Fin) A, identity_matrix n)))) \<and>
         jacobiMethod (map (map Fin) A)
           = jacobi_output ((jacobi_step n ^^ K) (map (map Fin) A, identity_matrix n))))"
proof (intro conjI impI)
  show "fst (jacobi_loop n 0 st) \<le> 50"
    using jacobi_loop_run [of 0 n st] by auto
next
  assume h: "square n A \<and> (\<forall>i<n. \<forall>j<n. A ! i ! j = A ! j ! i)"
  let ?f0 = "\<lambda>i j. A ! i ! j" and ?g0 = "\<lambda>i j. if i = j then (1::real) else 0"
  let ?st = "(map (map Fin) A, identity_matrix n)"
  have st: "?st = (mk n ?f0, mk n ?g0)"
    using h by (simp add: Fin_matrix_mk identity_matrix_mk)
  have sym: "symmetric n ?f0" using h by (simp add: symmetric_def)
  have len: "length (map (map Fin) A) = n" using h by (simp add: square_def)
  obtain K where K: "K \<le> 50" "jacobi_loop n 0 ?st = (K, (jacobi_step n ^^ K) ?st)"
    "\<forall>j<K. \<not> stops n ((jacobi_step n ^^ j) ?st)"
    "K < 50 \<longrightarrow> stops n ((jacobi_step n ^^ K) ?st)"
    using jacobi_loop_run [of 0 n ?st] by auto
  have eq: "stops n ((jacobi_step n ^^ j) ?st) \<longleftrightarrow> converged n (fst ((jacobi_step n ^^ j) ?st))"
    if "j \<le> K" for j
    using run_converged [OF sym _ that, of ?g0] K(3) unfolding st by blast
  have a: "\<forall>j<K. \<not> converged n (fst ((jacobi_step n ^^ j) ?st))"
    using K(3) eq by simp
  have b: "K < 50 \<longrightarrow> converged n (fst ((jacobi_step n ^^ K) ?st))"
    using K(4) eq by simp
  have c: "jacobiMethod (map (map Fin) A) = jacobi_output ((jacobi_step n ^^ K) ?st)"
    unfolding jacobiMethod_def Let_def len K(2) by simp
  from K(1,2) a b c
  show "\<exists>K\<le>50.
         jacobi_loop n 0 ?st = (K, (jacobi_step n ^^ K) ?st) \<and>
         (\<forall>j<K. \<not> converged n (fst ((jacobi_step n ^^ j) ?st))) \<and>
         (K < 50 \<longrightarrow> converged n (fst ((jacobi_step n ^^ K) ?st))) \<and>
         jacobiMethod (map (map Fin) A) = jacobi_output ((jacobi_step n ^^ K) ?st)"
    by blast
qed

theorem jacobi_terminates_witness:
  "square 2 [[2, 1], [1, 2]] \<and> [[2, 1], [1, 2 :: real]] ! 0 ! 1 = [[2, 1], [1, 2]] ! 1 ! 0 \<and>
   jacobi_loop 2 0 (map (map Fin) [[2, 1], [1, 2]], identity_matrix 2)
     = (1, jacobi_step 2 (map (map Fin) [[2, 1], [1, 2]], identity_matrix 2)) \<and>
   \<not> converged 2 (map (map Fin) [[2, 1], [1, 2]]) \<and>
   converged 2 (fst (jacobi_step 2 (map (map Fin) [[2, 1], [1, 2]], identity_matrix 2))) \<and>
   jacobiMethod (map (map Fin) [[2, 1], [1, 2]])
     = jacobi_output (jacobi_step 2 (map (map Fin) [[2, 1], [1, 2]], identity_matrix 2))"
proof -
  let ?A = "[[2, 1], [1, 2 :: real]]"
  let ?st = "(map (map Fin) ?A, identity_matrix 2)"
  have sym: "\<forall>i<2. \<forall>j<2. ?A ! i ! j = ?A ! j ! i"
    by (simp add: numeral_2_eq_2 less_Suc_eq all_conj_distrib)
  from jacobi_terminates [of 2 ?st ?A, THEN conjunct2, rule_format, OF conjI [OF ex_square sym]]
  obtain K where K: "jacobi_loop 2 0 ?st = (K, (jacobi_step 2 ^^ K) ?st)"
    "\<forall>j<K. \<not> converged 2 (fst ((jacobi_step 2 ^^ j) ?st))"
    "K < 50 \<longrightarrow> converged 2 (fst ((jacobi_step 2 ^^ K) ?st))"
    "jacobiMethod (map (map Fin) ?A) = jacobi_output ((jacobi_step 2 ^^ K) ?st)"
    by blast
  from K(1) have K1: "K = 1" by (simp add: ex_loop)
  from K show ?thesis
    unfolding K1 using ex_square by simp
qed

section \<open>Interpretation: the properties\<close>

lemma findMaxIndex_prefix:
  assumes "k \<le> length x"
  shows "\<exists>m. foldl (\<lambda>maxIndex index.
                  if arr_get (map Fin x) index > arr_get (map Fin x) maxIndex then index
                  else maxIndex) 0 [0..<k] = m \<and>
             (m < k \<or> (k = 0 \<and> m = 0)) \<and> (\<forall>i<k. x ! i \<le> x ! m) \<and> (\<forall>i<m. x ! i < x ! m)"
  using assms
proof (induction k)
  case 0
  show ?case by simp
next
  case (Suc k)
  then have k: "k < length x" by simp
  from Suc obtain m where m: "foldl (\<lambda>maxIndex index.
                  if arr_get (map Fin x) index > arr_get (map Fin x) maxIndex then index
                  else maxIndex) 0 [0..<k] = m"
    "m < k \<or> (k = 0 \<and> m = 0)" "\<forall>i<k. x ! i \<le> x ! m" "\<forall>i<m. x ! i < x ! m"
    by auto
  have mlen: "m < length x" using m(2) k by auto
  show ?case
  proof (cases "x ! k > x ! m")
    case True
    have "\<forall>i<Suc k. x ! i \<le> x ! k"
      using m(3) True by (auto simp: less_Suc_eq)
    moreover have "\<forall>i<k. x ! i < x ! k"
      using m(3) True by fastforce
    ultimately show ?thesis
      using m(1) True k mlen by simp
  next
    case False
    have "\<forall>i<Suc k. x ! i \<le> x ! m"
      using m(3) False by (auto simp: less_Suc_eq)
    moreover have "m < Suc k" using m(2) by auto
    ultimately show ?thesis
      using m(1,4) False k mlen by simp
  qed
qed

lemma findMaxIndex_Fin:
  assumes "x \<noteq> []"
  shows "findMaxIndex (map Fin x) < length x \<and>
         (\<forall>i<length x. x ! i \<le> x ! findMaxIndex (map Fin x)) \<and>
         (\<forall>i<findMaxIndex (map Fin x). x ! i < x ! findMaxIndex (map Fin x))"
  using findMaxIndex_prefix [of "length x" x] assms by (auto simp: findMaxIndex_def)

text \<open>
  Claim C8. For a decomposition of \<open>N \<ge> 1\<close> finite eigenvalues and \<open>N\<close> eigenvectors
  of \<open>N\<close> finite components, over \<open>N\<close> stocks, the summary names the stock at the index
  \<open>m\<close> where the leading eigenvector has its greatest signed component, the first such
  index (every component is at most the one at \<open>m\<close>, every earlier one is smaller);
  \<open>varianceExplained\<close> is \<open>eigenvalue[0]\<close> divided by the sum of the eigenvalues, times
  100, and \<open>totalVariance\<close> is that sum.
\<close>

theorem analysis_summary:
  assumes "eig_values e = map Fin ev" and "eig_vectors e = map (map Fin) V"
    and "length ev = N" and "length V = N" and "\<forall>v \<in> set V. length v = N"
    and "length stocks = N" and "0 < N"
  shows "\<exists>m<N. (\<forall>i<N. V ! 0 ! i \<le> V ! 0 ! m) \<and> (\<forall>i<m. V ! 0 ! i < V ! 0 ! m) \<and>
           analysis_of stocks e =
             Inr \<lparr> mainTrendStock = Some (stocks ! m),
                   varianceExplained = Fin (ev ! 0) / Fin (sum_list ev) * Fin 100,
                   totalVariance = Fin (sum_list ev) \<rparr> \<and>
           (sum_list ev \<noteq> 0 \<longrightarrow>
              Fin (ev ! 0) / Fin (sum_list ev) * Fin 100 = Fin (ev ! 0 / sum_list ev * 100))"
proof -
  obtain v0 rest where V: "V = v0 # rest" using assms(4,7) by (cases V) auto
  then have v0: "length v0 = N" "v0 \<noteq> []" "V ! 0 = v0" using assms(5,7) by auto
  let ?m = "findMaxIndex (map Fin v0)"
  note mx = findMaxIndex_Fin [OF v0(2)]
  have ev: "ev \<noteq> []" using assms(3,7) by auto
  have "analysis_of stocks e =
             Inr \<lparr> mainTrendStock = Some (stocks ! ?m),
                   varianceExplained = Fin (ev ! 0) / Fin (sum_list ev) * Fin 100,
                   totalVariance = Fin (sum_list ev) \<rparr>"
    using mx ev by (simp add: analysis_of_def assms(1,2,6) V v0(1) Let_def)
  with mx show ?thesis
    unfolding v0(3) using v0(1) by (intro exI [of _ ?m]) simp
qed

theorem analysis_summary_witness:
  "length [3, 1 :: real] = 2 \<and> length [[3 / 5, 4 / 5], [4 / 5, - 3 / 5 :: real]] = 2 \<and>
   length [''A'', ''B''] = 2 \<and>
   analysis_of [''A'', ''B'']
     \<lparr> eig_values = map Fin [3, 1],
       eig_vectors = map (map Fin) [[3 / 5, 4 / 5], [4 / 5, - 3 / 5]] \<rparr>
     = Inr \<lparr> mainTrendStock = Some ''B'', varianceExplained = Fin 75, totalVariance = Fin 4 \<rparr>"
proof -
  let ?e = "\<lparr> eig_values = map Fin [3, 1],
       eig_vectors = map (map Fin) [[3 / 5, 4 / 5], [4 / 5, - 3 / 5 :: real]] \<rparr>"
  have "\<exists>m<2. (\<forall>i<2. [[3 / 5, 4 / 5], [4 / 5, - 3 / 5 :: real]] ! 0 ! i
                      \<le> [[3 / 5, 4 / 5], [4 / 5, - 3 / 5]] ! 0 ! m) \<and>
           (\<forall>i<m. [[3 / 5, 4 / 5], [4 / 5, - 3 / 5 :: real]] ! 0 ! i
                      < [[3 / 5, 4 / 5], [4 / 5, - 3 / 5]] ! 0 ! m) \<and>
           analysis_of [''A'', ''B''] ?e =
             Inr \<lparr> mainTrendStock = Some ([''A'', ''B''] ! m),
                   varianceExplained = Fin ([3, 1] ! 0) / Fin (sum_list [3, 1]) * Fin 100,
                   totalVariance = Fin (sum_list [3, 1]) \<rparr> \<and>
           (sum_list [3, 1 :: real] \<noteq> 0 \<longrightarrow>
              Fin ([3, 1] ! 0) / Fin (sum_list [3, 1]) * Fin 100
                = Fin ([3, 1] ! 0 / sum_list [3, 1] * 100))"
    by (rule analysis_summary [of ?e]) simp_all
  then obtain m where m: "m < 2"
    "\<forall>i<2. [[3 / 5, 4 / 5], [4 / 5, - 3 / 5 :: real]] ! 0 ! i \<le> [[3 / 5, 4 / 5], [4 / 5, - 3 / 5]] ! 0 ! m"
    "analysis_of [''A'', ''B''] ?e =
             Inr \<lparr> mainTrendStock = Some ([''A'', ''B''] ! m),
                   varianceExplained = Fin ([3, 1] ! 0) / Fin (sum_list [3, 1]) * Fin 100,
                   totalVariance = Fin (sum_list [3, 1]) \<rparr>"
    by blast
  have "m \<noteq> 0"
  proof
    assume "m = 0"
    with m(2) have "[[3 / 5, 4 / 5], [4 / 5, - 3 / 5 :: real]] ! 0 ! 1 \<le> [[3 / 5, 4 / 5], [4 / 5, - 3 / 5]] ! 0 ! 0"
      by (metis one_less_numeral_iff semiring_norm(76))
    then show False by simp
  qed
  with m(1) have "m = 1" by simp
  with m(3) show ?thesis by simp
qed

section \<open>The pipeline: the properties\<close>

lemma forEach_Inl:
  "forEach f xs s = Inl e \<Longrightarrow> \<exists>x \<in> set xs. \<exists>s'. f x s' = Inl e"
  by (induction xs arbitrary: s) (auto split: sum.splits)

lemma foldl_map_upd:
  "foldl (\<lambda>m s. m(s \<mapsto> h s)) m xs k = (if k \<in> set xs then Some (h k) else m k)"
  by (induction xs arbitrary: m) auto

lemma collect_prices_all:
  assumes "\<forall>s \<in> set stocks. stockData s = Some (series s)"
  shows "forEach (collect_prices stockData dates) stocks m =
         Inr (foldl (\<lambda>m s. m(s \<mapsto> map (prop_get (series s)) dates)) m stocks)"
  by (rule forEach_Inr) (simp add: collect_prices_def assms)

lemma collect_returns_all:
  assumes "\<forall>s \<in> set stocks. prices s = Some (ps s)"
  shows "forEach (collect_returns prices) stocks m =
         Inr (foldl (\<lambda>m s. m(s \<mapsto> stock_returns (ps s))) m stocks)"
  by (rule forEach_Inr) (simp add: collect_returns_def assms)

lemma covariance_defined:
  assumes "\<forall>s \<in> set stocks. returns s \<noteq> None"
  shows "\<exists>C. calculateCovarianceMatrix stocks returns = Inr C"
proof -
  let ?n = "length stocks"
  let ?v = "\<lambda>i j. cov_entry (the (returns (stocks ! i))) (the (returns (stocks ! j)))"
  have cell: "cov_cell stocks returns i j m = Inr (mat_set m i j (?v i j))"
    if "i \<in> set [0..<?n]" "j \<in> set [0..<?n]" for i j m
  proof -
    from that have "stocks ! i \<in> set stocks" "stocks ! j \<in> set stocks" by simp_all
    with assms have "returns (stocks ! i) \<noteq> None" "returns (stocks ! j) \<noteq> None"
      by blast+
    then show ?thesis by (auto simp: cov_cell_def)
  qed
  have inner: "forEach (\<lambda>j. cov_cell stocks returns i j) [0..<?n] m
               = Inr (foldl (\<lambda>m j. mat_set m i j (?v i j)) m [0..<?n])"
    if "i \<in> set [0..<?n]" for i m
    using that by (intro forEach_Inr cell)
  have "forEach (\<lambda>i. forEach (\<lambda>j. cov_cell stocks returns i j) [0..<?n]) [0..<?n]
          (replicate ?n (replicate ?n (Fin 0)))
        = Inr (foldl (\<lambda>m i. foldl (\<lambda>m j. mat_set m i j (?v i j)) m [0..<?n])
                 (replicate ?n (replicate ?n (Fin 0))) [0..<?n])"
    by (intro forEach_Inr inner)
  then show ?thesis
    by (simp add: calculateCovarianceMatrix_def Let_def fill_matrix)
qed

lemma covariance_length:
  "calculateCovarianceMatrix stocks returns = Inr C \<Longrightarrow> length C = length stocks"
proof -
  have cell: "length m' = length m" if "cov_cell stocks returns i j m = Inr m'" for i j m m'
    using that by (auto simp: cov_cell_def mat_set_def split: option.splits)
  have inner: "length m' = length m" if "forEach (\<lambda>j. cov_cell stocks returns i j) js m = Inr m'"
    for i js m m'
    using that by (induction js arbitrary: m) (auto split: sum.splits dest: cell)
  have outer: "length m' = length m"
    if "forEach (\<lambda>i. forEach (\<lambda>j. cov_cell stocks returns i j) js) is m = Inr m'"
    for js "is" m m'
    using that by (induction "is" arbitrary: m) (auto split: sum.splits dest: inner)
  assume "calculateCovarianceMatrix stocks returns = Inr C"
  then show ?thesis
    by (auto simp: calculateCovarianceMatrix_def Let_def dest: outer)
qed

lemma covariance_error:
  "calculateCovarianceMatrix stocks returns = Inl e \<Longrightarrow> e = TypeError"
  by (auto simp: calculateCovarianceMatrix_def Let_def cov_cell_def
      dest!: forEach_Inl split: option.splits)

lemma length_js_sort [simp]: "length (js_sort cmp xs) = length xs"
  using mset_eq_length [OF mset_js_sort] .

lemma length_eig_vectors: "length (eig_vectors (jacobi_output (vals, vecs))) = length vals"
  by (simp add: jacobi_output_def Let_def sorted_indices_def diagonal_def)

lemma length_mat_set [simp]: "length (mat_set m i j v) = length m"
  by (simp add: mat_set_def)

lemma length_rotate_row [simp]: "length (rotate_row p q c s m r) = length m"
  by (simp add: rotate_row_def Let_def)

lemma length_rotate_values [simp]: "length (rotate_values n p q c s m) = length m"
proof -
  have "length (foldl (rotate_row p q c s) m rs) = length m" for rs
    by (induction rs arbitrary: m) simp_all
  then show ?thesis by (simp add: rotate_values_def Let_def)
qed

lemma length_jacobi_step: "length (fst (jacobi_step n st)) = length (fst st)"
  by (cases st) (simp add: jacobi_step_def jacobi_rotate_def Let_def split: prod.splits)

lemma length_jacobi_steps: "length (fst ((jacobi_step n ^^ k) st)) = length (fst st)"
  by (induction k) (simp_all add: length_jacobi_step)

lemma length_jacobiMethod: "length (eig_vectors (jacobiMethod m)) = length m"
proof -
  obtain k where "jacobi_loop (length m) 0 (m, identity_matrix (length m))
      = (0 + k, (jacobi_step (length m) ^^ k) (m, identity_matrix (length m)))"
    using jacobi_loop_run [of 0 "length m" "(m, identity_matrix (length m))"] by blast
  then have "jacobiMethod m = jacobi_output ((jacobi_step (length m) ^^ k) (m, identity_matrix (length m)))"
    by (simp add: jacobiMethod_def Let_def)
  moreover obtain vals vecs where
    vv: "(jacobi_step (length m) ^^ k) (m, identity_matrix (length m)) = (vals, vecs)"
    by (cases "(jacobi_step (length m) ^^ k) (m, identity_matrix (length m))")
  moreover have "length vals = length m"
    using length_jacobi_steps [where n = "length m" and k = k and st = "(m, identity_matrix (length m))"]
    by (simp add: vv)
  ultimately show ?thesis
    by (simp add: length_eig_vectors)
qed

lemma analysis_of_error: "analysis_of stocks e = Inl err \<Longrightarrow> err = TypeError"
  by (auto simp: analysis_of_def split: list.splits)

lemma performAnalysis_error: "performAnalysis stocks stockData = Inl e \<Longrightarrow> e = TypeError"
  by (auto simp: performAnalysis_def Let_def collect_prices_def collect_returns_def
      split: option.splits sum.splits if_splits
      dest!: forEach_Inl covariance_error analysis_of_error)

subsection \<open>The runs on the two price tables\<close>

lemma upt_5: "[0..<5] = [0, 1, 2, 3, 4]"
  by (simp add: upt_rec)

lemma ex_prices:
  "\<exists>prices. forEach (collect_prices misaligned_data (object_keys reliance_series)) stocks0 Map.empty
     = Inr prices"
  by (simp add: stocks0_def misaligned_data_def collect_prices_def)

lemma ex_prices_returns:
  "forEach (collect_prices misaligned_data (object_keys reliance_series)) stocks0 Map.empty = Inr prices
   \<Longrightarrow> forEach (collect_returns prices) stocks0 Map.empty = Inr misaligned_returns"
  by (auto simp: stocks0_def misaligned_data_def collect_prices_def collect_returns_def
      object_keys_def prop_get_def reliance_series_def tcs_series_def flat_series_def
      stock_returns_def arr_get_def upt_rec [of _ 4] misaligned_returns_def)

lemma ex_cov_entries:
  "cov_entry [Fin (1 / 10), Fin (- (1 / 10)), Fin 0] [Fin (1 / 10), Fin (- (1 / 10)), Fin 0] = Fin (1 / 100)"
  "cov_entry [Fin (1 / 10), Fin (- (1 / 10)), Fin 0] [Fin (1 / 10), Fin (1 / 10), Fin (- (1 / 5))] = Fin 0"
  "cov_entry [Fin (1 / 10), Fin (1 / 10), Fin (- (1 / 5))] [Fin (1 / 10), Fin (- (1 / 10)), Fin 0] = Fin 0"
  "cov_entry [Fin (1 / 10), Fin (1 / 10), Fin (- (1 / 5))] [Fin (1 / 10), Fin (1 / 10), Fin (- (1 / 5))] = Fin (3 / 100)"
  "cov_entry [Fin (1 / 10), Fin (- (1 / 10)), Fin 0] [Fin 0, Fin 0, Fin 0] = Fin 0"
  "cov_entry [Fin (1 / 10), Fin (1 / 10), Fin (- (1 / 5))] [Fin 0, Fin 0, Fin 0] = Fin 0"
  "cov_entry [Fin 0, Fin 0, Fin 0] [Fin (1 / 10), Fin (- (1 / 10)), Fin 0] = Fin 0"
  "cov_entry [Fin 0, Fin 0, Fin 0] [Fin (1 / 10), Fin (1 / 10), Fin (- (1 / 5))] = Fin 0"
  "cov_entry [Fin 0, Fin 0, Fin 0] [Fin 0, Fin 0, Fin 0] = Fin 0"
  by (simp_all add: cov_entry_def series_mean_def js_sum_def arr_get_def upt_rec [of _ 3] Let_def)

lemma ex_cov: "calculateCovarianceMatrix stocks0 misaligned_returns = Inr misaligned_cov"
  by (simp add: calculateCovarianceMatrix_def stocks0_def misaligned_returns_def cov_cell_def
      ex_cov_entries upt_5 mat_set_def arr_set_def misaligned_cov_def Let_def)

lemma ex_cov_pivot: "find_pivot 5 misaligned_cov = (Fin 0, 0, 0)"
  by (simp add: find_pivot_def misaligned_cov_def mat_get_def arr_get_def upt_rec [of _ 5])

lemma ex_pca: "performPCA misaligned_cov = misaligned_eigen"
proof -
  have "length misaligned_cov = 5" by (simp add: misaligned_cov_def)
  moreover have "jacobi_loop 5 0 (misaligned_cov, identity_matrix 5)
                 = (0, misaligned_cov, identity_matrix 5)"
    by (subst jacobi_loop.simps) (simp add: ex_cov_pivot tolerance_def)
  moreover have "jacobi_output (misaligned_cov, identity_matrix 5) = misaligned_eigen"
    by (simp add: jacobi_output_def diagonal_def sorted_indices_def js_sort_def column_def
        misaligned_cov_def identity_matrix_def misaligned_eigen_def arr_get_def upt_5 Let_def)
  ultimately show ?thesis
    by (simp add: performPCA_def jacobiMethod_def Let_def)
qed

lemma ex_analysis:
  "analysis_of stocks0 misaligned_eigen
     = Inr \<lparr> mainTrendStock = Some ''TCS.NS'', varianceExplained = Fin 75,
             totalVariance = Fin (1 / 25) \<rparr>"
  by (simp add: analysis_of_def misaligned_eigen_def findMaxIndex_def js_sum_def stocks0_def
      arr_get_def upt_5 Let_def)

lemma flat_prices:
  "\<exists>prices. forEach (collect_prices flat_data (object_keys flat_series)) stocks0 Map.empty = Inr prices"
  by (simp add: stocks0_def flat_data_def collect_prices_def)

lemma flat_prices_returns:
  "forEach (collect_prices flat_data (object_keys flat_series)) stocks0 Map.empty = Inr prices
   \<Longrightarrow> forEach (collect_returns prices) stocks0 Map.empty = Inr flat_returns"
  by (auto simp: stocks0_def flat_data_def collect_prices_def collect_returns_def
      object_keys_def prop_get_def flat_series_def
      stock_returns_def arr_get_def upt_rec [of _ 4] flat_returns_def)

lemma flat_cov:
  "calculateCovarianceMatrix stocks0 flat_returns = Inr (replicate 5 (replicate 5 (Fin 0)))"
  by (simp add: calculateCovarianceMatrix_def stocks0_def flat_returns_def cov_cell_def
      ex_cov_entries upt_5 mat_set_def arr_set_def Let_def numeral_eq_Suc)

lemma flat_pca: "performPCA (replicate 5 (replicate 5 (Fin 0))) = flat_eigen"
proof -
  have z: "replicate 5 (replicate 5 (Fin 0)) =
           [[Fin 0, Fin 0, Fin 0, Fin 0, Fin 0], [Fin 0, Fin 0, Fin 0, Fin 0, Fin 0],
            [Fin 0, Fin 0, Fin 0, Fin 0, Fin 0], [Fin 0, Fin 0, Fin 0, Fin 0, Fin 0],
            [Fin 0, Fin 0, Fin 0, Fin 0, Fin 0]]"
    by (simp add: numeral_eq_Suc)
  have "find_pivot 5 (replicate 5 (replicate 5 (Fin 0))) = (Fin 0, 0, 0)"
    unfolding z by (simp add: find_pivot_def mat_get_def arr_get_def upt_rec [of _ 5])
  then have "jacobi_loop 5 0 (replicate 5 (replicate 5 (Fin 0)), identity_matrix 5)
                 = (0, replicate 5 (replicate 5 (Fin 0)), identity_matrix 5)"
    by (subst jacobi_loop.simps) (simp add: tolerance_def)
  moreover have "jacobi_output (replicate 5 (replicate 5 (Fin 0)), identity_matrix 5) = flat_eigen"
    unfolding z
    by (simp add: jacobi_output_def diagonal_def sorted_indices_def js_sort_def column_def
        identity_matrix_def flat_eigen_def arr_get_def upt_5 Let_def)
  ultimately show ?thesis
    by (simp add: performPCA_def jacobiMethod_def Let_def)
qed

subsection \<open>A decomposition whose eigenvalues sum to zero\<close>

text \<open>
  Claim C9 says that the interpretation fails with \<open>DegenerateDecompositionError\<close> when
  the eigenvalues sum to zero. The code has no such check: on the decomposition of the
  all-zero covariance matrix it returns a summary whose \<open>varianceExplained\<close> is \<open>0 / 0\<close>,
  that is \<open>NaN\<close>, and so does the whole pipeline on constant prices.
\<close>

theorem degenerate_counterexample:
  "js_sum (eig_values flat_eigen) = Fin 0 \<and>
   analysis_of stocks0 flat_eigen
     = Inr \<lparr> mainTrendStock = Some ''RELIANCE.NS'', varianceExplained = NaN,
             totalVariance = Fin 0 \<rparr> \<and>
   performAnalysis stocks0 flat_data
     = Inr \<lparr> res_returns = flat_returns, res_eigen = flat_eigen,
             res_analysis = \<lparr> mainTrendStock = Some ''RELIANCE.NS'', varianceExplained = NaN,
                                totalVariance = Fin 0 \<rparr> \<rparr>"
proof -
  have a: "analysis_of stocks0 flat_eigen
     = Inr \<lparr> mainTrendStock = Some ''RELIANCE.NS'', varianceExplained = NaN,
             totalVariance = Fin 0 \<rparr>"
    by (simp add: analysis_of_def flat_eigen_def js_sum_def identity_matrix_def findMaxIndex_def
        stocks0_def arr_get_def upt_5 Let_def)
  obtain prices where
    p: "forEach (collect_prices flat_data (object_keys flat_series)) stocks0 Map.empty = Inr prices"
    using flat_prices by blast
  have "flat_data (first_stock stocks0) = Some flat_series"
    by (simp add: first_stock_def stocks0_def flat_data_def)
  then have "performAnalysis stocks0 flat_data
     = Inr \<lparr> res_returns = flat_returns, res_eigen = flat_eigen,
             res_analysis = \<lparr> mainTrendStock = Some ''RELIANCE.NS'', varianceExplained = NaN,
                                totalVariance = Fin 0 \<rparr> \<rparr>"
    by (simp add: performAnalysis_def Let_def p flat_prices_returns [OF p] flat_cov flat_pca a)
  with a show ?thesis by (simp add: flat_eigen_def js_sum_def)
qed

text \<open>
  Claim C9, as the code has it. For every decomposition with at least one eigenvector
  whose finite eigenvalues sum to zero, the interpretation raises no error and returns
  a summary: \<open>totalVariance\<close> is 0 and \<open>varianceExplained\<close> is the result of the division
  by zero, \<open>Infinity\<close> when \<open>eigenvalue[0]\<close> is positive, \<open>-Infinity\<close> when it is negative
  and \<open>NaN\<close> when it is zero.
\<close>

theorem degenerate_summary:
  assumes "eig_values e = map Fin ev" and "ev \<noteq> []" and "sum_list ev = 0"
    and "eig_vectors e \<noteq> []"
  shows "\<exists>a. analysis_of stocks e = Inr a \<and> totalVariance a = Fin 0 \<and>
             varianceExplained a = (if 0 < ev ! 0 then PInf else if ev ! 0 < 0 then NInf else NaN)"
  using assms by (cases "eig_vectors e") (simp_all add: analysis_of_def)

theorem degenerate_summary_witness:
  "[1, - 1 :: real] \<noteq> [] \<and> sum_list [1, - 1 :: real] = 0 \<and>
   analysis_of [''A'', ''B'']
     \<lparr> eig_values = map Fin [1, - 1], eig_vectors = [[Fin 1, Fin 0], [Fin 0, Fin 1]] \<rparr>
   = Inr \<lparr> mainTrendStock = Some ''A'', varianceExplained = PInf, totalVariance = Fin 0 \<rparr>"
proof -
  let ?e = "\<lparr> eig_values = map Fin [1, - 1], eig_vectors = [[Fin 1, Fin 0], [Fin 0, Fin 1]] \<rparr>"
  have "\<exists>a. analysis_of [''A'', ''B''] ?e = Inr a \<and> totalVariance a = Fin 0 \<and>
             varianceExplained a
               = (if 0 < [1, - 1 :: real] ! 0 then PInf else if [1, - 1 :: real] ! 0 < 0 then NInf else NaN)"
    by (rule degenerate_summary [of ?e]) simp_all
  then obtain a where a: "analysis_of [''A'', ''B''] ?e = Inr a" "totalVariance a = Fin 0"
    "varianceExplained a = PInf"
    by auto
  have "mainTrendStock a = Some ''A''"
    using a(1) by (auto simp: analysis_of_def findMaxIndex_def arr_get_def upt_rec [of 0 2] upt_rec [of 1 2])
  with a show ?thesis by (cases a) simp
qed

subsection \<open>Price series with different dates\<close>

text \<open>
  Claim C10 says that the pipeline fails with \<open>DataAlignmentError\<close>, computing nothing,
  when two stocks do not have the same dates. The code compares no dates: on the table
  \<open>misaligned_data\<close> it returns the returns, the decomposition and the summary.
\<close>

theorem misaligned_counterexample:
  "object_keys reliance_series \<noteq> object_keys tcs_series \<and>
   performAnalysis stocks0 misaligned_data
     = Inr \<lparr> res_returns = misaligned_returns, res_eigen = misaligned_eigen,
             res_analysis = \<lparr> mainTrendStock = Some ''TCS.NS'', varianceExplained = Fin 75,
                                totalVariance = Fin (1 / 25) \<rparr> \<rparr>"
proof -
  obtain prices where
    p: "forEach (collect_prices misaligned_data (object_keys reliance_series)) stocks0 Map.empty
        = Inr prices"
    using ex_prices by blast
  have "misaligned_data (first_stock stocks0) = Some reliance_series"
    by (simp add: first_stock_def stocks0_def misaligned_data_def)
  then have "performAnalysis stocks0 misaligned_data
     = Inr \<lparr> res_returns = misaligned_returns, res_eigen = misaligned_eigen,
             res_analysis = \<lparr> mainTrendStock = Some ''TCS.NS'', varianceExplained = Fin 75,
                                totalVariance = Fin (1 / 25) \<rparr> \<rparr>"
    by (simp add: performAnalysis_def Let_def p ex_prices_returns [OF p] ex_cov ex_pca ex_analysis)
  moreover have "object_keys reliance_series \<noteq> object_keys tcs_series"
    by (simp add: object_keys_def reliance_series_def tcs_series_def)
  ultimately show ?thesis by simp
qed

text \<open>
  Claim C10, as the code has it. \<^verbatim>\<open>performAnalysis\<close> never fails with
  \<open>DataAlignmentError\<close>. For a non-empty list of stocks each of which has a price series
  in the table, whether or not their dates agree, it returns a result, in which the
  returns of every stock are computed from its prices at the dates of the first stock
  (a date the stock does not have reads as \<^verbatim>\<open>undefined\<close>, a date only it has is
  ignored).
\<close>

theorem alignment_not_checked:
  "performAnalysis stocks stockData \<noteq> Inl DataAlignmentError \<and>
   (stocks \<noteq> [] \<and> (\<forall>s \<in> set stocks. stockData s = Some (series s)) \<longrightarrow>
      (\<exists>r. performAnalysis stocks stockData = Inr r \<and>
           (\<forall>s \<in> set stocks.
              res_returns r s
                = Some (stock_returns (map (prop_get (series s)) (object_keys (series (hd stocks))))))))"
proof (intro conjI impI)
  show "performAnalysis stocks stockData \<noteq> Inl DataAlignmentError"
    using performAnalysis_error [of stocks stockData DataAlignmentError] by auto
next
  assume h: "stocks \<noteq> [] \<and> (\<forall>s \<in> set stocks. stockData s = Some (series s))"
  then have ne: "stocks \<noteq> []" and sd: "\<forall>s \<in> set stocks. stockData s = Some (series s)"
    by simp_all
  let ?dates = "object_keys (series (hd stocks))"
  let ?prices = "foldl (\<lambda>m s. m(s \<mapsto> map (prop_get (series s)) ?dates)) Map.empty stocks"
  let ?returns = "foldl (\<lambda>m s. m(s \<mapsto> stock_returns (map (prop_get (series s)) ?dates)))
                    Map.empty stocks"
  have first: "stockData (first_stock stocks) = Some (series (hd stocks))"
    using ne sd by (cases stocks) (simp_all add: first_stock_def)
  have p: "forEach (collect_prices stockData ?dates) stocks Map.empty = Inr ?prices"
    by (rule collect_prices_all [OF sd])
  have "\<forall>s \<in> set stocks. ?prices s = Some (map (prop_get (series s)) ?dates)"
    by (simp add: foldl_map_upd)
  then have r: "forEach (collect_returns ?prices) stocks Map.empty = Inr ?returns"
    by (rule collect_returns_all)
  have rs: "\<forall>s \<in> set stocks.
              ?returns s = Some (stock_returns (map (prop_get (series s)) ?dates))"
    by (simp add: foldl_map_upd)
  then have "\<forall>s \<in> set stocks. ?returns s \<noteq> None" by simp
  from covariance_defined [OF this]
  obtain C where C: "calculateCovarianceMatrix stocks ?returns = Inr C" by blast
  have "length (eig_vectors (performPCA C)) = length stocks"
    by (simp add: performPCA_def length_jacobiMethod covariance_length [OF C])
  with ne have "eig_vectors (performPCA C) \<noteq> []" by auto
  then have "\<exists>a. analysis_of stocks (performPCA C) = Inr a"
    by (cases "eig_vectors (performPCA C)") (simp_all add: analysis_of_def)
  then obtain a where a: "analysis_of stocks (performPCA C) = Inr a" ..
  have "performAnalysis stocks stockData
        = Inr \<lparr> res_returns = ?returns, res_eigen = performPCA C, res_analysis = a \<rparr>"
    by (simp add: performAnalysis_def first Let_def p r C a)
  with rs show "\<exists>r. performAnalysis stocks stockData = Inr r \<and>
           (\<forall>s \<in> set stocks.
              res_returns r s = Some (stock_returns (map (prop_get (series s)) ?dates)))"
    by simp
qed

theorem alignment_not_checked_witness:
  "stocks0 \<noteq> [] \<and>
   misaligned_data ''RELIANCE.NS'' = Some reliance_series \<and>
   misaligned_data ''TCS.NS'' = Some tcs_series \<and>
   misaligned_data ''INFY.NS'' = Some flat_series \<and>
   misaligned_data ''HDFCBANK.NS'' = Some flat_series \<and>
   misaligned_data ''ITC.NS'' = Some flat_series \<and>
   performAnalysis stocks0 misaligned_data \<noteq> Inl DataAlignmentError \<and>
   (\<exists>r. performAnalysis stocks0 misaligned_data = Inr r \<and>
        res_returns r ''TCS.NS'' = Some [Fin (1 / 10), Fin (1 / 10), Fin (- (1 / 5))])"
proof -
  let ?series = "\<lambda>s. if s = ''RELIANCE.NS'' then reliance_series
                     else if s = ''TCS.NS'' then tcs_series else flat_series"
  have h: "stocks0 \<noteq> [] \<and> (\<forall>s \<in> set stocks0. misaligned_data s = Some (?series s))"
    by (simp add: stocks0_def misaligned_data_def)
  note t = alignment_not_checked [of stocks0 misaligned_data ?series]
  from t [THEN conjunct2, rule_format, OF h]
  obtain r where r: "performAnalysis stocks0 misaligned_data = Inr r"
    "\<forall>s \<in> set stocks0.
       res_returns r s
         = Some (stock_returns (map (prop_get (?series s)) (object_keys (?series (hd stocks0)))))"
    by blast
  have "''TCS.NS'' \<in> set stocks0" by (simp add: stocks0_def)
  with r(2) have "res_returns r ''TCS.NS''
      = Some (stock_returns (map (prop_get tcs_series) (object_keys reliance_series)))"
    by (simp add: stocks0_def)
  also have "stock_returns (map (prop_get tcs_series) (object_keys reliance_series))
             = [Fin (1 / 10), Fin (1 / 10), Fin (- (1 / 5))]"
    by (simp add: object_keys_def prop_get_def reliance_series_def tcs_series_def
        stock_returns_def arr_get_def upt_rec [of _ 4])
  finally have "res_returns r ''TCS.NS'' = Some [Fin (1 / 10), Fin (1 / 10), Fin (- (1 / 5))]" .
  with r(1) t [THEN conjunct1] show ?thesis
    by (simp add: stocks0_def misaligned_data_def)
qed

end
